theory Spec2Isabelle
  imports Main
begin

section \<open>Data model (the thread, tag and category schemas)\<close>

text \<open>
  The thread schema with its vote and reply sub-schemas is the second module of
  src/models/Tag.js (lines 28-144), the tag schema the first; the thread routes are the
  second module of src/routes/users.js (from line 184).

  An ObjectId is identified with the string its \<^verbatim>\<open>toString()\<close> yields: every
  comparison of ids in the routes goes through \<^verbatim>\<open>toString()\<close>.

  A string is the list of its characters, each a code point below 256 (Latin-1), so
  that \<open>length\<close> is \<^verbatim>\<open>.length\<close>.
\<close>

type_synonym oid = string

text \<open>\<^verbatim>\<open>voteSchema\<close>: \<^verbatim>\<open>type\<close> has the enum \<^verbatim>\<open>['upvote', 'downvote']\<close>; the
  sub-document has no \<^verbatim>\<open>_id\<close>.\<close>

datatype vote_type = Upvote | Downvote

record vote =
  vuser :: oid
  vtype :: vote_type

text \<open>
  \<^verbatim>\<open>replySchema\<close>. Its field \<^verbatim>\<open>replies: [this]\<close> is evaluated at module scope, where
  \<^verbatim>\<open>this\<close> is the empty \<^verbatim>\<open>module.exports\<close>: the path is an array of Mixed, not of
  replies (the comment beside it says "Self-reference for nested replies"). So only the
  elements of \<^verbatim>\<open>thread.replies\<close> are sub-documents of the reply schema (with an
  \<^verbatim>\<open>_id\<close>, defaults, validation and change tracking); everything below them is plain
  data, stored and loaded as it is. A node of the tree is therefore the same record at
  every depth, with the fields a plain object may lack made optional: \<open>r_id\<close> is
  \<open>None\<close> for an object without \<^verbatim>\<open>_id\<close> (every reply the add route puts under a parent,
  every nested reply of the seed data), \<open>r_createdAt\<close> is \<open>None\<close> for one without
  \<^verbatim>\<open>createdAt\<close> (the nested replies of the seed data). An absent \<^verbatim>\<open>replies\<close> is the
  empty list (the helpers skip both alike), an absent \<^verbatim>\<open>isEdited\<close> is \<open>False\<close>.
  Dates are numbers (\<^verbatim>\<open>getTime()\<close>), an unset \<^verbatim>\<open>editedAt\<close> is \<open>None\<close>.
\<close>

record reply_fields =
  r_id :: "oid option"
  r_author :: oid
  r_content :: string
  r_votes :: "vote list"
  r_parentReply :: "string option"
  r_isEdited :: bool
  r_editedAt :: "nat option"
  r_createdAt :: "nat option"

datatype reply = Reply (r_fields: reply_fields) (r_replies: "reply list")

text \<open>\<^verbatim>\<open>threadSchema\<close>, keyed by its \<^verbatim>\<open>_id\<close> in the collection.\<close>

record thread =
  title :: string
  content :: string
  author :: oid
  category :: oid
  tags :: "oid list"
  votes :: "vote list"
  replies :: "reply list"
  views :: nat
  isPinned :: bool
  isLocked :: bool
  isEdited :: bool
  editedAt :: "nat option"
  lastActivity :: nat

text \<open>\<^verbatim>\<open>tagSchema\<close> and \<^verbatim>\<open>categorySchema\<close> (the fields the routes read and write).\<close>

record tag =
  tag_id :: oid
  tag_name :: string
  usageCount :: int

record category_doc =
  cat_name :: string
  threadCount :: int

text \<open>
  The User model is not among the sources; the routes read and write \<^verbatim>\<open>reputation\<close>
  and compare \<^verbatim>\<open>role\<close> with \<^verbatim>\<open>'admin'\<close> (README: role is user/moderator/admin).
\<close>

datatype role = RoleUser | Moderator | Admin

record user =
  reputation :: int
  urole :: role

text \<open>\<^verbatim>\<open>req.user\<close>, as the authentication middleware leaves it.\<close>

record requester =
  uid :: oid
  rrole :: role

text \<open>
  The document store: one collection per model. The documents of the store are taken
  to satisfy their schemas (they were written through the models), so a
  \<^verbatim>\<open>save()\<close> can only be refused for what the request itself has put into the
  document.
\<close>

record db =
  Threads :: "oid \<rightharpoonup> thread"
  Users :: "oid \<rightharpoonup> user"
  Tags :: "tag list"
  Categories :: "oid \<rightharpoonup> category_doc"

text \<open>
  The failures of the routes, by the status they answer with:
  400 'Invalid vote type' is \<open>InvalidVote\<close>, the other 400s are \<open>InvalidInput\<close>,
  403 is \<open>Forbidden\<close>, 404 is \<open>NotFound\<close>, 500 (the outer \<^verbatim>\<open>catch\<close>) is
  \<open>ServerError\<close>.
\<close>

datatype error = InvalidVote | InvalidInput | Forbidden | NotFound | ServerError

text \<open>
  What is thrown inside a handler: the \<^verbatim>\<open>Error('Not authorized')\<close> of the edit and
  delete helpers, and the TypeError of reading a property of \<^verbatim>\<open>undefined\<close> or
  \<^verbatim>\<open>null\<close>. The \<^verbatim>\<open>catch\<close> that receives it decides the answer.
\<close>

datatype exn = NotAuthorized | TypeError

text \<open>
  \<^verbatim>\<open>Model.findById(id)\<close> casts the id it is given to an ObjectId before it queries, and
  throws a CastError when the cast fails; inside the handlers that is the outer
  \<^verbatim>\<open>catch\<close>, so status 500. The cast belongs to the driver, which is not among the
  sources: every handler that looks a document up by a string of the request takes it
  as the parameter \<open>castObjectId\<close>, with \<open>None\<close> for a failed cast and otherwise the id
  (as its \<^verbatim>\<open>toString()\<close>) that is looked up.
\<close>

type_synonym cast = "string \<Rightarrow> oid option"

section \<open>Vote ledger (routes/votes.js)\<close>

text \<open>
  \<^verbatim>\<open>['upvote', 'downvote'].includes(type)\<close>, with the enum value the string names;
  \<^verbatim>\<open>type\<close> is the string the request body carries.
\<close>

definition parseVoteType :: "string \<Rightarrow> vote_type option" where
  "parseVoteType ty =
     (if ty = ''upvote'' then Some Upvote
      else if ty = ''downvote'' then Some Downvote
      else None)"

definition typeName :: "vote_type \<Rightarrow> string" where
  "typeName t = (case t of Upvote \<Rightarrow> ''upvote'' | Downvote \<Rightarrow> ''downvote'')"

text \<open>\<^verbatim>\<open>Array.prototype.findIndex\<close>: \<open>None\<close> stands for \<^verbatim>\<open>-1\<close>.\<close>

fun findIndex :: "('a \<Rightarrow> bool) \<Rightarrow> 'a list \<Rightarrow> nat option" where
  "findIndex P [] = None"
| "findIndex P (x # xs) = (if P x then Some 0 else map_option Suc (findIndex P xs))"

text \<open>
  The vote branching of both vote handlers (votes.js lines 22-48 for a thread, lines
  96-122 for a reply: the same code on \<^verbatim>\<open>thread.votes\<close> and \<^verbatim>\<open>reply.votes\<close>).
  It returns the ledger after the mutation and \<^verbatim>\<open>voteChange\<close>.
\<close>

definition castVote :: "vote list \<Rightarrow> oid \<Rightarrow> vote_type \<Rightarrow> vote list \<times> int" where
  "castVote vs u ty =
     (case findIndex (\<lambda>v. vuser v = u) vs of
        Some existingVoteIndex \<Rightarrow>
          (let existingVote = vs ! existingVoteIndex in
           if vtype existingVote = ty
           then (take existingVoteIndex vs @ drop (Suc existingVoteIndex) vs,
                 if ty = Upvote then - 1 else 1)
           else (vs[existingVoteIndex := existingVote\<lparr>vtype := ty\<rparr>],
                 if ty = Upvote then 2 else - 2))
      | None \<Rightarrow>
          (vs @ [\<lparr>vuser = u, vtype = ty\<rparr>], if ty = Upvote then 1 else - 1))"

text \<open>\<^verbatim>\<open>upvotes - downvotes\<close>, each a \<^verbatim>\<open>filter(...).length\<close>.\<close>

definition upvotes :: "vote list \<Rightarrow> nat" where
  "upvotes vs = length (filter (\<lambda>v. vtype v = Upvote) vs)"

definition downvotes :: "vote list \<Rightarrow> nat" where
  "downvotes vs = length (filter (\<lambda>v. vtype v = Downvote) vs)"

definition voteScore :: "vote list \<Rightarrow> int" where
  "voteScore vs = int (upvotes vs) - int (downvotes vs)"

text \<open>\<^verbatim>\<open>votes.find(v => v.user.toString() === req.user._id.toString())\<close>, then its type or null.\<close>

definition userVote :: "vote list \<Rightarrow> oid \<Rightarrow> vote_type option" where
  "userVote vs u = map_option vtype (find (\<lambda>v. vuser v = u) vs)"

text \<open>\<^verbatim>\<open>author.reputation = Math.max(0, author.reputation + voteChange)\<close>, skipped when the
  author is not found.\<close>

definition adjustReputation :: "db \<Rightarrow> oid \<Rightarrow> int \<Rightarrow> db" where
  "adjustReputation d a voteChange =
     (case Users d a of
        None \<Rightarrow> d
      | Some au \<Rightarrow>
          d\<lparr>Users := (Users d)(a \<mapsto> au\<lparr>reputation := max 0 (reputation au + voteChange)\<rparr>)\<rparr>)"

record vote_response =
  resp_voteScore :: int
  resp_userVote :: "vote_type option"

text \<open>
  POST /threads/:threadId (votes.js lines 9-76). The type is checked first, then the
  thread is looked up (\<open>ServerError\<close> when the id of the request does not cast).
\<close>

definition voteOnThread :: "cast \<Rightarrow> db \<Rightarrow> requester \<Rightarrow> string \<Rightarrow> string \<Rightarrow> (error + vote_response) \<times> db" where
  "voteOnThread castObjectId d rq threadId ty =
     (case parseVoteType ty of
        None \<Rightarrow> (Inl InvalidVote, d)
      | Some t \<Rightarrow>
          (case castObjectId threadId of
             None \<Rightarrow> (Inl ServerError, d)
           | Some tid \<Rightarrow>
               (case Threads d tid of
                  None \<Rightarrow> (Inl NotFound, d)
                | Some th \<Rightarrow>
                    (let (vs', voteChange) = castVote (votes th) (uid rq) t;
                         th' = th\<lparr>votes := vs'\<rparr>;
                         d1 = d\<lparr>Threads := (Threads d)(tid \<mapsto> th')\<rparr>;
                         d2 = adjustReputation d1 (author th') voteChange
                     in (Inr \<lparr>resp_voteScore = voteScore (votes th'),
                               resp_userVote = userVote (votes th') (uid rq)\<rparr>, d2)))))"

section \<open>Reply tree (routes/replies.js, routes/votes.js)\<close>

text \<open>
  The recursive helpers of the routes mutate the tree in place and return a flag or a
  node. Here each returns its result together with the tree after the call, so that
  what the call changed and what it left alone are both part of the value; a throw is
  the value \<open>Inl\<close>. Each helper reads \<^verbatim>\<open>reply._id.toString()\<close> of every node it visits,
  which throws a TypeError at a node without \<^verbatim>\<open>_id\<close>. Where the source returns
  \<^verbatim>\<open>true\<close> or the node, the result here also carries the depth of the node the helper
  stopped at (\<open>k\<close> is the depth of the list it is called on, 0 for
  \<^verbatim>\<open>thread.replies\<close>): the depth decides what \<^verbatim>\<open>thread.save()\<close> writes afterwards.
\<close>

text \<open>\<^verbatim>\<open>findAndAddReply\<close> (replies.js lines 33-46), for \<^verbatim>\<open>parentReplyId\<close> and \<^verbatim>\<open>newReply\<close>.\<close>

function findAndAddReply ::
  "string \<Rightarrow> reply \<Rightarrow> nat \<Rightarrow> reply list \<Rightarrow> exn + (nat option \<times> reply list)" where
  "findAndAddReply parentReplyId newReply k [] = Inr (None, [])"
| "findAndAddReply parentReplyId newReply k (Reply f kids # rest) =
     (case r_id f of
        None \<Rightarrow> Inl TypeError
      | Some i \<Rightarrow>
          if i = parentReplyId then Inr (Some k, Reply f (kids @ [newReply]) # rest)
          else
            (case (if kids \<noteq> [] then findAndAddReply parentReplyId newReply (Suc k) kids
                   else Inr (None, kids)) of
               Inl e \<Rightarrow> Inl e
             | Inr (Some j, kids') \<Rightarrow> Inr (Some j, Reply f kids' # rest)
             | Inr (None, kids') \<Rightarrow>
                 (case findAndAddReply parentReplyId newReply k rest of
                    Inl e \<Rightarrow> Inl e
                  | Inr (found, rest') \<Rightarrow> Inr (found, Reply f kids' # rest'))))"
  by pat_completeness auto
termination
  by (relation "measure (\<lambda>(p, n, k, rs). size_list size rs)") auto

text \<open>
  \<^verbatim>\<open>findReply\<close> (replies.js lines 66-79), called after
  \<^verbatim>\<open>thread.populate('replies.author', ...)\<close>: the first node, in document order, with the
  requester as author, the submitted content and the creation time of \<^verbatim>\<open>newReply\<close>.
  The populate replaces the author of each element of \<^verbatim>\<open>thread.replies\<close> (depth 0) by
  the user document, or by null when there is no such user, and then
  \<^verbatim>\<open>reply.author._id\<close> throws; \<open>known\<close> tells which users exist. Below depth 0 the
  author is the stored ObjectId. \<^verbatim>\<open>reply.createdAt.getTime()\<close> is evaluated when author
  and content agree, and throws when the node has no \<^verbatim>\<open>createdAt\<close>.
\<close>

function findReply ::
  "(oid \<Rightarrow> bool) \<Rightarrow> oid \<Rightarrow> string \<Rightarrow> nat \<Rightarrow> nat \<Rightarrow> reply list \<Rightarrow> exn + reply option" where
  "findReply known a c t k [] = Inr None"
| "findReply known a c t k (Reply f kids # rest) =
     (if k = 0 \<and> \<not> known (r_author f) then Inl TypeError
      else if r_author f = a \<and> r_content f = c \<and> r_createdAt f = None then Inl TypeError
      else if r_author f = a \<and> r_content f = c \<and> r_createdAt f = Some t then Inr (Some (Reply f kids))
      else
        (case (if kids \<noteq> [] then findReply known a c t (Suc k) kids else Inr None) of
           Inl e \<Rightarrow> Inl e
         | Inr (Some found) \<Rightarrow> Inr (Some found)
         | Inr None \<Rightarrow> findReply known a c t k rest))"
  by pat_completeness auto
termination
  by (relation "measure (\<lambda>(kn, a, c, t, k, rs). size_list size rs)") auto

text \<open>
  \<^verbatim>\<open>findAndUpdateReply\<close> (replies.js lines 113-133), for \<^verbatim>\<open>req.user\<close>,
  \<^verbatim>\<open>req.params.replyId\<close>, the new content and the time of the call.
\<close>

function findAndUpdateReply ::
  "requester \<Rightarrow> string \<Rightarrow> string \<Rightarrow> nat \<Rightarrow> nat \<Rightarrow> reply list
     \<Rightarrow> exn + ((nat \<times> reply) option \<times> reply list)" where
  "findAndUpdateReply rq replyId c now k [] = Inr (None, [])"
| "findAndUpdateReply rq replyId c now k (Reply f kids # rest) =
     (case r_id f of
        None \<Rightarrow> Inl TypeError
      | Some i \<Rightarrow>
          if i = replyId then
            (if r_author f \<noteq> uid rq \<and> rrole rq \<noteq> Admin then Inl NotAuthorized
             else
               (let reply' = Reply (f\<lparr>r_content := c, r_isEdited := True, r_editedAt := Some now\<rparr>) kids
                in Inr (Some (k, reply'), reply' # rest)))
          else
            (case (if kids \<noteq> [] then findAndUpdateReply rq replyId c now (Suc k) kids
                   else Inr (None, kids)) of
               Inl e \<Rightarrow> Inl e
             | Inr (Some found, kids') \<Rightarrow> Inr (Some found, Reply f kids' # rest)
             | Inr (None, kids') \<Rightarrow>
                 (case findAndUpdateReply rq replyId c now k rest of
                    Inl e \<Rightarrow> Inl e
                  | Inr (found, rest') \<Rightarrow> Inr (found, Reply f kids' # rest'))))"
  by pat_completeness auto
termination
  by (relation "measure (\<lambda>(rq, i, c, t, k, rs). size_list size rs)") auto

text \<open>
  \<^verbatim>\<open>findAndRemoveReply\<close> (replies.js lines 170-192): \<^verbatim>\<open>replies.splice(i, 1)\<close> at the
  first node, in document order, whose id is \<^verbatim>\<open>req.params.replyId\<close>.
\<close>

function findAndRemoveReply ::
  "requester \<Rightarrow> string \<Rightarrow> nat \<Rightarrow> reply list \<Rightarrow> exn + (nat option \<times> reply list)" where
  "findAndRemoveReply rq replyId k [] = Inr (None, [])"
| "findAndRemoveReply rq replyId k (Reply f kids # rest) =
     (case r_id f of
        None \<Rightarrow> Inl TypeError
      | Some i \<Rightarrow>
          if i = replyId then
            (if r_author f \<noteq> uid rq \<and> rrole rq \<noteq> Admin then Inl NotAuthorized
             else Inr (Some k, rest))
          else
            (case (if kids \<noteq> [] then findAndRemoveReply rq replyId (Suc k) kids
                   else Inr (None, kids)) of
               Inl e \<Rightarrow> Inl e
             | Inr (Some j, kids') \<Rightarrow> Inr (Some j, Reply f kids' # rest)
             | Inr (None, kids') \<Rightarrow>
                 (case findAndRemoveReply rq replyId k rest of
                    Inl e \<Rightarrow> Inl e
                  | Inr (removed, rest') \<Rightarrow> Inr (removed, Reply f kids' # rest'))))"
  by pat_completeness auto
termination
  by (relation "measure (\<lambda>(rq, i, k, rs). size_list size rs)") auto

text \<open>
  \<^verbatim>\<open>findAndVoteReply\<close> (votes.js lines 93-133): the vote branching on the ledger of the
  first node with the id, returning that node after the vote and \<^verbatim>\<open>voteChange\<close>.
\<close>

function findAndVoteReply ::
  "string \<Rightarrow> oid \<Rightarrow> vote_type \<Rightarrow> nat \<Rightarrow> reply list
     \<Rightarrow> exn + ((nat \<times> reply \<times> int) option \<times> reply list)" where
  "findAndVoteReply replyId u ty k [] = Inr (None, [])"
| "findAndVoteReply replyId u ty k (Reply f kids # rest) =
     (case r_id f of
        None \<Rightarrow> Inl TypeError
      | Some i \<Rightarrow>
          if i = replyId then
            (case castVote (r_votes f) u ty of
               (vs', voteChange) \<Rightarrow>
                 (let reply' = Reply (f\<lparr>r_votes := vs'\<rparr>) kids
                  in Inr (Some (k, reply', voteChange), reply' # rest)))
          else
            (case (if kids \<noteq> [] then findAndVoteReply replyId u ty (Suc k) kids
                   else Inr (None, kids)) of
               Inl e \<Rightarrow> Inl e
             | Inr (Some result, kids') \<Rightarrow> Inr (Some result, Reply f kids' # rest)
             | Inr (None, kids') \<Rightarrow>
                 (case findAndVoteReply replyId u ty k rest of
                    Inl e \<Rightarrow> Inl e
                  | Inr (result, rest') \<Rightarrow> Inr (result, Reply f kids' # rest'))))"
  by pat_completeness auto
termination
  by (relation "measure (\<lambda>(i, u, t, k, rs). size_list size rs)") auto

text \<open>\<^verbatim>\<open>calculateReplyStats\<close> (votes.js lines 180-196): \<^verbatim>\<open>{upvotes, downvotes}\<close> as a pair.\<close>

function calculateReplyStats :: "reply list \<Rightarrow> nat \<times> nat" where
  "calculateReplyStats [] = (0, 0)"
| "calculateReplyStats (Reply f kids # rest) =
     (let nestedStats = (if kids \<noteq> [] then calculateReplyStats kids else (0, 0));
          restStats = calculateReplyStats rest
      in (upvotes (r_votes f) + fst nestedStats + fst restStats,
          downvotes (r_votes f) + snd nestedStats + snd restStats))"
  by pat_completeness auto
termination
  by (relation "measure (size_list size)") auto

section \<open>Reply handlers (routes/replies.js)\<close>

text \<open>
  \<^verbatim>\<open>parentReplyId || null\<close> and \<^verbatim>\<open>if (parentReplyId)\<close>: of the values a string field of
  the request body can take, null (or absent) and the empty string are falsy.
\<close>

definition truthy :: "string option \<Rightarrow> string option" where
  "truthy p = (case p of None \<Rightarrow> None | Some s \<Rightarrow> if s = [] then None else Some s)"

text \<open>
  The validators of \<^verbatim>\<open>content\<close> in the reply schema (\<^verbatim>\<open>required\<close>, which refuses the
  empty string, and \<^verbatim>\<open>maxlength: 5000\<close>). They apply to the elements of
  \<^verbatim>\<open>thread.replies\<close>; nothing validates the plain data below them. (The middleware
  \<^verbatim>\<open>validateReply\<close> checks the length before it trims, so a content of blanks reaches
  the handler as the empty string.)
\<close>

definition validReplyContent :: "string \<Rightarrow> bool" where
  "validReplyContent c = (c \<noteq> [] \<and> length c \<le> 5000)"

text \<open>
  The \<^verbatim>\<open>pre('save')\<close> hook of the thread schema: \<^verbatim>\<open>lastActivity\<close> is set when
  \<^verbatim>\<open>replies\<close> is marked modified.
\<close>

definition preSave :: "nat \<Rightarrow> thread \<Rightarrow> thread \<Rightarrow> thread" where
  "preSave now loaded th = (if replies th \<noteq> replies loaded then th\<lparr>lastActivity := now\<rparr> else th)"

text \<open>
  \<^verbatim>\<open>thread.save()\<close> writes the paths that are marked modified. A change of the reply
  tree is marked when it goes through a sub-document or a mongoose array: a push or
  splice on \<^verbatim>\<open>thread.replies\<close>, an assignment to a field or a change of the votes of
  one of its elements, a push or splice on the \<^verbatim>\<open>replies\<close> array of one of its
  elements. A change inside a Mixed element (a field or the votes of a node at depth 1
  or more, the children of such a node) is an in-place mutation of plain data and is not
  marked: the stored tree stays as it was loaded. \<open>marked\<close> says which of the two the
  change of \<^verbatim>\<open>replies\<close> made by the handler is.
\<close>

definition saveThread :: "nat \<Rightarrow> db \<Rightarrow> oid \<Rightarrow> thread \<Rightarrow> thread \<Rightarrow> bool \<Rightarrow> db" where
  "saveThread now d threadId loaded th marked =
     (let written = (if marked then th else th\<lparr>replies := replies loaded\<rparr>)
      in d\<lparr>Threads := (Threads d)(threadId \<mapsto> preSave now loaded written)\<rparr>)"

text \<open>
  POST /:threadId (replies.js lines 9-100). \<open>c\<close> is \<^verbatim>\<open>req.body.content\<close>, \<open>newId\<close> the
  \<^verbatim>\<open>_id\<close> a new sub-document gets, \<open>now\<close> the value of \<^verbatim>\<open>new Date()\<close>.

  Under a parent, \<^verbatim>\<open>newReply\<close> is pushed as the plain object it is: no \<^verbatim>\<open>_id\<close>, the
  \<^verbatim>\<open>parentReply\<close> string as given. The push is marked when the parent is an element of
  \<^verbatim>\<open>thread.replies\<close> (depth 0); \<^verbatim>\<open>lastActivity\<close> is assigned and written in any case.
  After the save the handler looks the new reply up in the document in memory; a throw
  there, or no node found (\<^verbatim>\<open>addedReply._id\<close> of null), is the outer \<^verbatim>\<open>catch\<close>.

  At the top level \<^verbatim>\<open>thread.replies.push\<close> casts \<^verbatim>\<open>newReply\<close> to a sub-document, which
  \<^verbatim>\<open>save\<close> validates.
\<close>

definition addReply ::
  "cast \<Rightarrow> oid \<Rightarrow> nat \<Rightarrow> db \<Rightarrow> requester \<Rightarrow> string \<Rightarrow> string \<Rightarrow> string option
     \<Rightarrow> (error + reply) \<times> db" where
  "addReply castObjectId newId now d rq threadId c parentReplyId =
     (case castObjectId threadId of
        None \<Rightarrow> (Inl ServerError, d)
      | Some tid \<Rightarrow>
     (case Threads d tid of
        None \<Rightarrow> (Inl NotFound, d)
      | Some th \<Rightarrow>
          if isLocked th then (Inl Forbidden, d)
          else
            (case truthy parentReplyId of
               Some pid \<Rightarrow>
                 (let newReply = Reply \<lparr>r_id = None, r_author = uid rq, r_content = c, r_votes = [],
                                        r_parentReply = Some pid, r_isEdited = False,
                                        r_editedAt = None, r_createdAt = Some now\<rparr> []
                  in case findAndAddReply pid newReply 0 (replies th) of
                       Inl e \<Rightarrow> (Inl ServerError, d)
                     | Inr (None, rs') \<Rightarrow> (Inl NotFound, d)
                     | Inr (Some k, rs') \<Rightarrow>
                         (let d' = saveThread now d tid th (th\<lparr>replies := rs', lastActivity := now\<rparr>) (k = 0)
                          in case findReply (\<lambda>a. Users d a \<noteq> None) (uid rq) c now 0 rs' of
                               Inr (Some addedReply) \<Rightarrow> (Inr addedReply, d')
                             | _ \<Rightarrow> (Inl ServerError, d')))
             | None \<Rightarrow>
                 (let newReply = Reply \<lparr>r_id = Some newId, r_author = uid rq, r_content = c, r_votes = [],
                                        r_parentReply = None, r_isEdited = False,
                                        r_editedAt = None, r_createdAt = Some now\<rparr> [];
                      rs' = replies th @ [newReply]
                  in if \<not> validReplyContent c then (Inl ServerError, d)
                     else (Inr (last rs'),
                           saveThread now d tid th (th\<lparr>replies := rs', lastActivity := now\<rparr>) True)))))"

text \<open>
  PUT /:threadId/replies/:replyId (replies.js lines 103-159). Whatever is thrown
  inside the inner \<^verbatim>\<open>try\<close> (the helper's 'Not authorized', its TypeError at a node
  without \<^verbatim>\<open>_id\<close>, the validation error of \<^verbatim>\<open>thread.save()\<close> for the new content of
  a sub-document) is answered with 403. The edit of a node below depth 0 is not marked.
\<close>

definition updateReply ::
  "cast \<Rightarrow> nat \<Rightarrow> db \<Rightarrow> requester \<Rightarrow> string \<Rightarrow> string \<Rightarrow> string \<Rightarrow> (error + reply) \<times> db" where
  "updateReply castObjectId now d rq threadId replyId c =
     (case castObjectId threadId of
        None \<Rightarrow> (Inl ServerError, d)
      | Some tid \<Rightarrow>
     (case Threads d tid of
        None \<Rightarrow> (Inl NotFound, d)
      | Some th \<Rightarrow>
          (case findAndUpdateReply rq replyId c now 0 (replies th) of
             Inl authError \<Rightarrow> (Inl Forbidden, d)
           | Inr (None, rs') \<Rightarrow> (Inl NotFound, d)
           | Inr (Some (k, updatedReply), rs') \<Rightarrow>
               if k = 0 \<and> \<not> validReplyContent c then (Inl Forbidden, d)
               else (Inr updatedReply, saveThread now d tid th (th\<lparr>replies := rs'\<rparr>) (k = 0)))))"

text \<open>
  DELETE /:threadId/replies/:replyId (replies.js lines 162-210). The splice is marked
  when it is made on \<^verbatim>\<open>thread.replies\<close> or on the \<^verbatim>\<open>replies\<close> array of one of its
  elements, that is when the removed node is at depth 0 or 1.
\<close>

definition deleteReply ::
  "cast \<Rightarrow> nat \<Rightarrow> db \<Rightarrow> requester \<Rightarrow> string \<Rightarrow> string \<Rightarrow> (error + unit) \<times> db" where
  "deleteReply castObjectId now d rq threadId replyId =
     (case castObjectId threadId of
        None \<Rightarrow> (Inl ServerError, d)
      | Some tid \<Rightarrow>
     (case Threads d tid of
        None \<Rightarrow> (Inl NotFound, d)
      | Some th \<Rightarrow>
          (case findAndRemoveReply rq replyId 0 (replies th) of
             Inl authError \<Rightarrow> (Inl Forbidden, d)
           | Inr (None, rs') \<Rightarrow> (Inl NotFound, d)
           | Inr (Some k, rs') \<Rightarrow>
               (Inr (), saveThread now d tid th (th\<lparr>replies := rs'\<rparr>) (k \<le> 1)))))"

section \<open>Reply votes (routes/votes.js)\<close>

text \<open>
  POST /threads/:threadId/replies/:replyId (votes.js lines 79-166). A throw of the
  helper is the outer \<^verbatim>\<open>catch\<close>. The vote on a node below depth 0 is not marked, so
  it is not written; the reputation update and the answer follow all the same.
\<close>

definition voteOnReply ::
  "cast \<Rightarrow> nat \<Rightarrow> db \<Rightarrow> requester \<Rightarrow> string \<Rightarrow> string \<Rightarrow> string \<Rightarrow> (error + vote_response) \<times> db" where
  "voteOnReply castObjectId now d rq threadId replyId ty =
     (case parseVoteType ty of
        None \<Rightarrow> (Inl InvalidVote, d)
      | Some t \<Rightarrow>
          (case castObjectId threadId of
             None \<Rightarrow> (Inl ServerError, d)
           | Some tid \<Rightarrow>
               (case Threads d tid of
                  None \<Rightarrow> (Inl NotFound, d)
                | Some th \<Rightarrow>
                    (case findAndVoteReply replyId (uid rq) t 0 (replies th) of
                       Inl e \<Rightarrow> (Inl ServerError, d)
                     | Inr (None, rs') \<Rightarrow> (Inl NotFound, d)
                     | Inr (Some (k, reply', voteChange), rs') \<Rightarrow>
                         (let d1 = saveThread now d tid th (th\<lparr>replies := rs'\<rparr>) (k = 0);
                              d2 = adjustReputation d1 (r_author (r_fields reply')) voteChange
                          in (Inr \<lparr>resp_voteScore = voteScore (r_votes (r_fields reply')),
                                    resp_userVote = userVote (r_votes (r_fields reply')) (uid rq)\<rparr>,
                              d2))))))"

section \<open>Tags (thread creation in routes/users.js lines 295-362, routes/tags.js)\<close>

text \<open>
  \<^verbatim>\<open>String.prototype.toLowerCase\<close> on Latin-1: the letters A-Z and the letters from
  U+00C0 to U+00DE (but not the multiplication sign U+00D7) move up by 32.
\<close>

definition lowerChar :: "char \<Rightarrow> char" where
  "lowerChar c =
     (let n = (of_char c :: nat)
      in if (65 \<le> n \<and> n \<le> 90) \<or> (192 \<le> n \<and> n \<le> 222 \<and> n \<noteq> 215) then char_of (n + 32) else c)"

definition toLowerCase :: "string \<Rightarrow> string" where
  "toLowerCase s = map lowerChar s"

text \<open>
  \<^verbatim>\<open>String.prototype.trim\<close> on Latin-1: the white space and line terminators are
  U+0009 to U+000D, the space and the no-break space U+00A0.
\<close>

definition isSpace :: "char \<Rightarrow> bool" where
  "isSpace c = (let n = (of_char c :: nat) in (9 \<le> n \<and> n \<le> 13) \<or> n = 32 \<or> n = 160)"

definition trim :: "string \<Rightarrow> string" where
  "trim s = rev (dropWhile isSpace (rev (dropWhile isSpace s)))"

text \<open>
  The \<^verbatim>\<open>name\<close> path of the tag schema: the setters \<^verbatim>\<open>lowercase\<close> and \<^verbatim>\<open>trim\<close>, applied
  to a name that is assigned and to a name in a query filter alike, and the validators
  \<^verbatim>\<open>required\<close> and \<^verbatim>\<open>maxlength: 30\<close>, applied by \<^verbatim>\<open>save()\<close>.
\<close>

definition setName :: "string \<Rightarrow> string" where
  "setName s = trim (toLowerCase s)"

definition validTagName :: "string \<Rightarrow> bool" where
  "validTagName n = (n \<noteq> [] \<and> length n \<le> 30)"

text \<open>
  \<^verbatim>\<open>tag.save()\<close>: the document with the tag's \<^verbatim>\<open>_id\<close> is replaced, a new document is
  inserted at the end of the collection.
\<close>

definition saveTag :: "tag \<Rightarrow> tag list \<Rightarrow> tag list" where
  "saveTag t coll =
     (if tag_id t \<in> set (map tag_id coll)
      then map (\<lambda>x. if tag_id x = tag_id t then t else x) coll
      else coll @ [t])"

text \<open>
  The tag loop of thread creation (users.js lines 306-319, "Process tags"): for each submitted
  name, \<^verbatim>\<open>Tag.findOne({ name: tagName.toLowerCase() })\<close>, a new tag when there is none,
  \<^verbatim>\<open>usageCount += 1\<close>, and the tag's id pushed on \<^verbatim>\<open>tagIds\<close>. \<open>newTagId\<close> gives the
  \<^verbatim>\<open>_id\<close> of a new tag document from the collection it is added to. The first
  \<^verbatim>\<open>save()\<close> of a new tag throws when its name is not valid; the loop ends there, with
  the tags of the earlier names already written: the result is then the collection so
  far and \<open>None\<close> for \<^verbatim>\<open>tagIds\<close>.
\<close>

fun processTags ::
  "(tag list \<Rightarrow> oid) \<Rightarrow> string list \<Rightarrow> tag list \<Rightarrow> oid list \<Rightarrow> tag list \<times> oid list option" where
  "processTags newTagId [] coll tagIds = (coll, Some tagIds)"
| "processTags newTagId (tagName # rest) coll tagIds =
     (case find (\<lambda>t. tag_name t = setName (toLowerCase tagName)) coll of
        Some tg \<Rightarrow>
          (let tg' = tg\<lparr>usageCount := usageCount tg + 1\<rparr>
           in processTags newTagId rest (saveTag tg' coll) (tagIds @ [tag_id tg']))
      | None \<Rightarrow>
          (let tg = \<lparr>tag_id = newTagId coll, tag_name = setName (toLowerCase tagName), usageCount = 0\<rparr>
           in if \<not> validTagName (tag_name tg) then (coll, None)
              else
                (let coll1 = saveTag tg coll;
                     tg' = tg\<lparr>usageCount := usageCount tg + 1\<rparr>
                 in processTags newTagId rest (saveTag tg' coll1) (tagIds @ [tag_id tg']))))"

text \<open>
  The validators of \<^verbatim>\<open>title\<close> (after its \<^verbatim>\<open>trim\<close> setter) and \<^verbatim>\<open>content\<close> in the
  thread schema: \<^verbatim>\<open>required\<close> with \<^verbatim>\<open>maxlength\<close> 200 and 10000.
\<close>

definition validTitle :: "string \<Rightarrow> bool" where
  "validTitle s = (s \<noteq> [] \<and> length s \<le> 200)"

definition validContent :: "string \<Rightarrow> bool" where
  "validContent s = (s \<noteq> [] \<and> length s \<le> 10000)"

text \<open>
  POST / of the thread routes ("Create new thread"). A throw (the cast of the category
  id, the \<^verbatim>\<open>save()\<close> of a tag or of the thread) is the outer \<^verbatim>\<open>catch\<close>; what the tag
  loop has written by then stays written.
\<close>

definition createThread ::
  "cast \<Rightarrow> (tag list \<Rightarrow> oid) \<Rightarrow> oid \<Rightarrow> nat \<Rightarrow> db \<Rightarrow> requester \<Rightarrow> string \<Rightarrow> string \<Rightarrow> string
     \<Rightarrow> string list option \<Rightarrow> (error + thread) \<times> db" where
  "createThread castObjectId newTagId newThreadId now d rq ttl c cat tagNames =
     (case castObjectId cat of
        None \<Rightarrow> (Inl ServerError, d)
      | Some catId \<Rightarrow>
     (case Categories d catId of
        None \<Rightarrow> (Inl InvalidInput, d)
      | Some categoryDoc \<Rightarrow>
          (case (case tagNames of
                   None \<Rightarrow> (Tags d, Some [])
                 | Some ns \<Rightarrow> if ns \<noteq> [] then processTags newTagId ns (Tags d) [] else (Tags d, Some [])) of
             (coll', None) \<Rightarrow> (Inl ServerError, d\<lparr>Tags := coll'\<rparr>)
           | (coll', Some tagIds) \<Rightarrow>
               if \<not> (validTitle (trim ttl) \<and> validContent c) then (Inl ServerError, d\<lparr>Tags := coll'\<rparr>)
               else
                 (let th = \<lparr>title = trim ttl, content = c, author = uid rq, category = catId,
                            tags = tagIds, votes = [], replies = [], views = 0, isPinned = False,
                            isLocked = False, isEdited = False, editedAt = None, lastActivity = now\<rparr>
                  in (Inr th,
                      d\<lparr>Threads := (Threads d)(newThreadId \<mapsto> th),
                         Tags := coll',
                         Categories := (Categories d)(catId \<mapsto>
                           categoryDoc\<lparr>threadCount := threadCount categoryDoc + 1\<rparr>)\<rparr>)))))"

text \<open>
  \<^verbatim>\<open>Thread.updateMany({ tags: source }, { $set: { "tags.$": target } })\<close>: in every
  thread whose \<^verbatim>\<open>tags\<close> holds the source id, the positional operator stands for the
  first element of the array that matches the query, and that element is set.
\<close>

definition setFirstTag :: "oid \<Rightarrow> oid \<Rightarrow> thread \<Rightarrow> thread" where
  "setFirstTag source target th =
     (case findIndex (\<lambda>x. x = source) (tags th) of
        None \<Rightarrow> th
      | Some i \<Rightarrow> th\<lparr>tags := (tags th)[i := target]\<rparr>)"

definition updateManyTags :: "oid \<Rightarrow> oid \<Rightarrow> (oid \<rightharpoonup> thread) \<Rightarrow> (oid \<rightharpoonup> thread)" where
  "updateManyTags source target ths = (\<lambda>k. map_option (setFirstTag source target) (ths k))"

text \<open>\<^verbatim>\<open>Tag.findById\<close> (after the cast) and \<^verbatim>\<open>Tag.findByIdAndDelete\<close> (one document).\<close>

definition findTagById :: "tag list \<Rightarrow> oid \<Rightarrow> tag option" where
  "findTagById coll i = find (\<lambda>t. tag_id t = i) coll"

fun deleteTagById :: "oid \<Rightarrow> tag list \<Rightarrow> tag list" where
  "deleteTagById i [] = []"
| "deleteTagById i (t # ts) = (if tag_id t = i then ts else t # deleteTagById i ts)"

text \<open>
  POST /:tagId/merge (tags.js lines 210-254); the answer carries the target tag. Both
  lookups come before the test of their results, so a failed cast of either id is the
  outer \<^verbatim>\<open>catch\<close>.
\<close>

definition mergeTags :: "cast \<Rightarrow> db \<Rightarrow> string \<Rightarrow> string option \<Rightarrow> (error + tag) \<times> db" where
  "mergeTags castObjectId d tagId targetTagId =
     (case truthy targetTagId of
        None \<Rightarrow> (Inl InvalidInput, d)
      | Some target \<Rightarrow>
          (case (castObjectId tagId, castObjectId target) of
             (Some sourceId, Some targetId) \<Rightarrow>
               (case (findTagById (Tags d) sourceId, findTagById (Tags d) targetId) of
                  (Some sourceTag, Some targetTag) \<Rightarrow>
                    if tag_id sourceTag = tag_id targetTag then (Inl InvalidInput, d)
                    else
                      (let ths' = updateManyTags (tag_id sourceTag) (tag_id targetTag) (Threads d);
                           targetTag' = targetTag\<lparr>usageCount := usageCount targetTag + usageCount sourceTag\<rparr>;
                           coll1 = saveTag targetTag' (Tags d);
                           coll2 = deleteTagById (tag_id sourceTag) coll1
                       in (Inr targetTag', d\<lparr>Threads := ths', Tags := coll2\<rparr>))
                | _ \<Rightarrow> (Inl NotFound, d))
           | _ \<Rightarrow> (Inl ServerError, d)))"

section \<open>Views of the state used to state the properties\<close>

text \<open>
  All nodes of a reply tree in document order (a node before its children, children
  before the later siblings): the order in which every recursive helper of the routes
  visits them.
\<close>

function allReplies :: "reply list \<Rightarrow> reply list" where
  "allReplies [] = []"
| "allReplies (Reply f kids # rest) = Reply f kids # allReplies kids @ allReplies rest"
  by pat_completeness auto
termination
  by (relation "measure (size_list size)") auto

text \<open>The \<^verbatim>\<open>_id\<close> of every node, \<open>None\<close> for a node without one.\<close>

definition replyIds :: "reply list \<Rightarrow> oid option list" where
  "replyIds rs = map (\<lambda>r. r_id (r_fields r)) (allReplies rs)"

text \<open>The nodes in document order, each with its depth (\<open>k\<close> for the list itself).\<close>

function nodes :: "nat \<Rightarrow> reply list \<Rightarrow> (nat \<times> reply) list" where
  "nodes k [] = []"
| "nodes k (Reply f kids # rest) = (k, Reply f kids) # nodes (Suc k) kids @ nodes k rest"
  by pat_completeness auto
termination
  by (relation "measure (\<lambda>(k, rs). size_list size rs)") auto

text \<open>
  Where the walk of a helper for the id \<open>i\<close> ends: at the first node, in document
  order, that has no \<^verbatim>\<open>_id\<close> (there the helper throws) or has the \<^verbatim>\<open>_id\<close> \<open>i\<close> (the
  node the id identifies for the routes). The result is that node with its depth, and
  \<open>None\<close> when every node has an \<^verbatim>\<open>_id\<close> and none has \<open>i\<close>.
\<close>

definition reach :: "string \<Rightarrow> nat \<Rightarrow> reply list \<Rightarrow> (nat \<times> reply) option" where
  "reach i k rs =
     find (\<lambda>e. r_id (r_fields (snd e)) = None \<or> r_id (r_fields (snd e)) = Some i) (nodes k rs)"

text \<open>The ledgers of all nodes of a tree.\<close>

definition ledgers :: "reply list \<Rightarrow> vote list list" where
  "ledgers rs = map (\<lambda>r. r_votes (r_fields r)) (allReplies rs)"

text \<open>At most one vote per voter in a ledger.\<close>

definition oneVotePerVoter :: "vote list \<Rightarrow> bool" where
  "oneVotePerVoter vs = distinct (map vuser vs)"

text \<open>At most one vote per voter in the ledger of a thread and in the ledger of each of its replies.\<close>

definition ledgersOk :: "thread \<Rightarrow> bool" where
  "ledgersOk th = (oneVotePerVoter (votes th) \<and> list_all oneVotePerVoter (ledgers (replies th)))"

text \<open>A sequence of casts on one ledger, and a sequence of vote requests on one thread.\<close>

fun castVotes :: "vote list \<Rightarrow> (oid \<times> vote_type) list \<Rightarrow> vote list" where
  "castVotes vs [] = vs"
| "castVotes vs ((u, t) # cs) = castVotes (fst (castVote vs u t)) cs"

fun voteOnThreadSeq :: "cast \<Rightarrow> db \<Rightarrow> string \<Rightarrow> (oid \<times> vote_type) list \<Rightarrow> db" where
  "voteOnThreadSeq castObjectId d threadId [] = d"
| "voteOnThreadSeq castObjectId d threadId ((u, t) # cs) =
     voteOnThreadSeq castObjectId
       (snd (voteOnThread castObjectId d \<lparr>uid = u, rrole = RoleUser\<rparr> threadId (typeName t))) threadId cs"

text \<open>
  The authorization rule of the edit and delete helpers, on the node they stop at:
  they throw unless the requester is the node's author or an admin.
\<close>

definition mayChange :: "requester \<Rightarrow> reply \<Rightarrow> bool" where
  "mayChange rq r = (r_author (r_fields r) = uid rq \<or> rrole rq = Admin)"

text \<open>
  The name under which a submitted tag name is looked up and stored: the route's
  \<^verbatim>\<open>toLowerCase()\<close>, then the setters of the schema.
\<close>

definition tagKey :: "string \<Rightarrow> string" where
  "tagKey tagName = setName (toLowerCase tagName)"

text \<open>
  The tag a name resolves to in a collection (\<^verbatim>\<open>Tag.findOne({ name })\<close>): its id, and its
  usage counter (0 when there is no such tag).
\<close>

definition usageOf :: "string \<Rightarrow> tag list \<Rightarrow> int" where
  "usageOf n coll = (case find (\<lambda>t. tag_name t = n) coll of None \<Rightarrow> 0 | Some t \<Rightarrow> usageCount t)"

definition idOf :: "string \<Rightarrow> tag list \<Rightarrow> oid option" where
  "idOf n coll = map_option tag_id (find (\<lambda>t. tag_name t = n) coll)"

text \<open>A node after an edit and after a vote: what the helpers write at the node they stop at.\<close>

definition editedNode :: "string \<Rightarrow> nat \<Rightarrow> reply \<Rightarrow> reply" where
  "editedNode c now r =
     Reply ((r_fields r)\<lparr>r_content := c, r_isEdited := True, r_editedAt := Some now\<rparr>) (r_replies r)"

definition votedNode :: "oid \<Rightarrow> vote_type \<Rightarrow> reply \<Rightarrow> reply" where
  "votedNode u t r =
     Reply ((r_fields r)\<lparr>r_votes := fst (castVote (r_votes (r_fields r)) u t)\<rparr>) (r_replies r)"

section \<open>Sample data\<close>

text \<open>
  A cast for the examples: a string of 24 hexadecimal digits is the id it spells, in
  lower case; nothing else casts.
\<close>

definition isHexDigit :: "char \<Rightarrow> bool" where
  "isHexDigit c = (c \<in> set ''0123456789abcdefABCDEF'')"

definition hexObjectId :: cast where
  "hexObjectId s = (if length s = 24 \<and> list_all isHexDigit s then Some (toLowerCase s) else None)"

text \<open>The ids of the examples: threads, the category, users, replies and tags.\<close>

definition idT1 :: oid where "idT1 = ''a10000000000000000000000''"
definition idT2 :: oid where "idT2 = ''a20000000000000000000000''"
definition idT3 :: oid where "idT3 = ''a30000000000000000000000''"
definition idT9 :: oid where "idT9 = ''a90000000000000000000000''"
definition idCat :: oid where "idCat = ''c10000000000000000000000''"
definition idAuthor :: oid where "idAuthor = ''e00000000000000000000000''"
definition idU1 :: oid where "idU1 = ''e10000000000000000000000''"
definition idU2 :: oid where "idU2 = ''e20000000000000000000000''"
definition idU3 :: oid where "idU3 = ''e30000000000000000000000''"
definition idA :: oid where "idA = ''ba0000000000000000000000''"
definition idB :: oid where "idB = ''bb0000000000000000000000''"
definition idC :: oid where "idC = ''bc0000000000000000000000''"
definition idF :: oid where "idF = ''b10000000000000000000000''"
definition idS :: oid where "idS = ''b20000000000000000000000''"
definition idN :: oid where "idN = ''b30000000000000000000000''"
definition idZ :: oid where "idZ = ''bf0000000000000000000000''"
definition idTagJs :: oid where "idTagJs = ''d10000000000000000000000''"
definition idTagNew :: oid where "idTagNew = ''d20000000000000000000000''"

lemmas id_defs =
  idT1_def idT2_def idT3_def idT9_def idCat_def idAuthor_def idU1_def idU2_def idU3_def
  idA_def idB_def idC_def idF_def idS_def idN_def idZ_def idTagJs_def idTagNew_def

definition sampleFields :: "oid option \<Rightarrow> oid \<Rightarrow> string \<Rightarrow> string option \<Rightarrow> vote list \<Rightarrow> nat \<Rightarrow> reply_fields" where
  "sampleFields i a c p vs t =
     \<lparr>r_id = i, r_author = a, r_content = c, r_votes = vs, r_parentReply = p,
      r_isEdited = False, r_editedAt = None, r_createdAt = Some t\<rparr>"

text \<open>
  The thread \<open>idT1\<close> as the routes build it: \<open>u3\<close> answers (\<open>firstReply\<close>), \<open>u2\<close> replies
  to that answer (\<open>nestedReply\<close>, stored without \<^verbatim>\<open>_id\<close>), \<open>u1\<close> answers
  (\<open>secondReply\<close>). The thread is written by \<open>idAuthor\<close> (reputation 10), and \<open>u1\<close> and
  \<open>u2\<close> have upvoted it.
\<close>

definition nestedReply :: reply where
  "nestedReply = Reply (sampleFields None idU2 ''a reply to it'' (Some idF) [] 2) []"

definition firstReply :: reply where
  "firstReply = Reply (sampleFields (Some idF) idU3 ''first answer'' None [] 1) [nestedReply]"

definition secondReply :: reply where
  "secondReply = Reply (sampleFields (Some idS) idU1 ''second answer'' None [] 3) []"

definition sampleThread :: thread where
  "sampleThread =
     \<lparr>title = ''A question'', content = ''How is it done?'', author = idAuthor, category = idCat,
      tags = [], votes = [\<lparr>vuser = idU1, vtype = Upvote\<rparr>, \<lparr>vuser = idU2, vtype = Upvote\<rparr>],
      replies = [firstReply, secondReply], views = 0, isPinned = False, isLocked = False,
      isEdited = False, editedAt = None, lastActivity = 3\<rparr>"

text \<open>
  The thread \<open>idT2\<close> holds the tree \<open>A \<rightarrow> [B \<rightarrow> [C]]\<close> with an \<^verbatim>\<open>_id\<close> at every node, as
  a direct write to the collection can store it.
\<close>

definition sampleC :: reply where
  "sampleC = Reply (sampleFields (Some idC) idU1 ''text of C'' (Some idB) [\<lparr>vuser = idU2, vtype = Downvote\<rparr>] 3) []"

definition sampleB :: reply where
  "sampleB = Reply (sampleFields (Some idB) idU2 ''text of B'' (Some idA) [\<lparr>vuser = idU1, vtype = Upvote\<rparr>] 2) [sampleC]"

definition sampleA :: reply where
  "sampleA = Reply (sampleFields (Some idA) idU3 ''text of A'' None [\<lparr>vuser = idU1, vtype = Upvote\<rparr>] 1) [sampleB]"

definition seededThread :: thread where
  "seededThread = sampleThread\<lparr>replies := [sampleA]\<rparr>"

definition sampleUsers :: "oid \<rightharpoonup> user" where
  "sampleUsers =
     [idAuthor \<mapsto> \<lparr>reputation = 10, urole = RoleUser\<rparr>,
      idU1 \<mapsto> \<lparr>reputation = 5, urole = RoleUser\<rparr>,
      idU2 \<mapsto> \<lparr>reputation = 5, urole = RoleUser\<rparr>,
      idU3 \<mapsto> \<lparr>reputation = 5, urole = RoleUser\<rparr>]"

definition sampleDb :: db where
  "sampleDb =
     \<lparr>Threads = [idT1 \<mapsto> sampleThread, idT2 \<mapsto> seededThread],
      Users = sampleUsers,
      Tags = [],
      Categories = [idCat \<mapsto> \<lparr>cat_name = ''General'', threadCount = 2\<rparr>]\<rparr>"

text \<open>The same store before the three replies of \<open>idT1\<close> were added.\<close>

definition startDb :: db where
  "startDb =
     sampleDb\<lparr>Threads := [idT1 \<mapsto> sampleThread\<lparr>replies := [], lastActivity := 0\<rparr>,
                           idT2 \<mapsto> seededThread]\<rparr>"

text \<open>The same store with both threads locked.\<close>

definition lockedDb :: db where
  "lockedDb =
     sampleDb\<lparr>Threads := [idT1 \<mapsto> sampleThread\<lparr>isLocked := True\<rparr>,
                           idT2 \<mapsto> seededThread\<lparr>isLocked := True\<rparr>]\<rparr>"

text \<open>The same store with no vote on the thread \<open>idT1\<close> yet and a given reputation of its author.\<close>

definition freshDb :: "int \<Rightarrow> db" where
  "freshDb base =
     sampleDb\<lparr>Threads := [idT1 \<mapsto> sampleThread\<lparr>votes := []\<rparr>],
              Users := [idAuthor \<mapsto> \<lparr>reputation = base, urole = RoleUser\<rparr>]\<rparr>"

text \<open>The same store with one tag, \<open>reactjs\<close>.\<close>

definition tagDb :: db where
  "tagDb = sampleDb\<lparr>Tags := [\<lparr>tag_id = idTagJs, tag_name = ''reactjs'', usageCount = 1\<rparr>]\<rparr>"

text \<open>An id generator for new tag documents: longer than every id of the collection.\<close>

definition sampleNewId :: "tag list \<Rightarrow> oid" where
  "sampleNewId coll = replicate (Suc (sum_list (map (\<lambda>t. length (tag_id t)) coll))) CHR ''0''"

lemmas sample_defs =
  sampleFields_def nestedReply_def firstReply_def secondReply_def sampleC_def sampleB_def
  sampleA_def sampleThread_def seededThread_def sampleUsers_def sampleDb_def

section \<open>The vote ledger: one cast\<close>

text \<open>The branching of \<open>castVote\<close>, read along the list.\<close>

lemma castVote_Nil:
  "castVote [] u t = ([\<lparr>vuser = u, vtype = t\<rparr>], if t = Upvote then 1 else - 1)"
  by (simp add: castVote_def)

lemma castVote_Cons:
  "castVote (v # vs) u t =
     (if vuser v = u
      then (if vtype v = t then (vs, if t = Upvote then - 1 else 1)
            else (v\<lparr>vtype := t\<rparr> # vs, if t = Upvote then 2 else - 2))
      else (v # fst (castVote vs u t), snd (castVote vs u t)))"
  by (auto simp: castVote_def Let_def split: option.splits)

lemma voteScore_Nil: "voteScore [] = 0"
  by (simp add: voteScore_def upvotes_def downvotes_def)

lemma voteScore_Cons:
  "voteScore (v # vs) = (if vtype v = Upvote then 1 else - 1) + voteScore vs"
  by (cases "vtype v") (simp_all add: voteScore_def upvotes_def downvotes_def)

lemma castVote_score: "voteScore (fst (castVote vs u t)) = voteScore vs + snd (castVote vs u t)"
proof (induction vs)
  case Nil
  show ?case by (cases t) (simp_all add: castVote_Nil voteScore_Cons voteScore_Nil)
next
  case (Cons v vs)
  show ?case
  proof (cases "vuser v = u")
    case True
    then show ?thesis
      by (cases t; cases "vtype v") (simp_all add: castVote_Cons voteScore_Cons)
  next
    case False
    with Cons.IH show ?thesis
      by (simp add: castVote_Cons voteScore_Cons)
  qed
qed

lemma castVote_voters:
  "set (map vuser (fst (castVote vs u t))) \<subseteq> insert u (set (map vuser vs))"
  by (induction vs) (auto simp: castVote_Nil castVote_Cons)

lemma castVote_distinct:
  "distinct (map vuser vs) \<Longrightarrow> distinct (map vuser (fst (castVote vs u t)))"
proof (induction vs)
  case Nil
  show ?case by (simp add: castVote_Nil)
next
  case (Cons v vs)
  then show ?case using castVote_voters [of vs u t]
    by (auto simp: castVote_Cons)
qed

lemma castVote_absent:
  "find (\<lambda>v. vuser v = u) vs = None \<Longrightarrow>
     castVote vs u t = (vs @ [\<lparr>vuser = u, vtype = t\<rparr>], if t = Upvote then 1 else - 1)"
  by (induction vs) (auto simp: castVote_Nil castVote_Cons split: if_splits)

lemma castVote_same:
  "find (\<lambda>v. vuser v = u) vs = Some w \<Longrightarrow> vtype w = t \<Longrightarrow>
     castVote vs u t = (remove1 w vs, if t = Upvote then - 1 else 1)"
proof (induction vs)
  case Nil
  then show ?case by simp
next
  case (Cons x vs)
  show ?case
  proof (cases "vuser x = u")
    case True
    with Cons.prems show ?thesis by (simp add: castVote_Cons)
  next
    case False
    with Cons.prems have f: "find (\<lambda>v. vuser v = u) vs = Some w" by simp
    then have "vuser w = u" by (auto simp: find_Some_iff)
    with False have "x \<noteq> w" by auto
    with Cons.IH [OF f Cons.prems(2)] False show ?thesis
      by (simp add: castVote_Cons)
  qed
qed

lemma castVote_opposite:
  "find (\<lambda>v. vuser v = u) vs = Some w \<Longrightarrow> vtype w \<noteq> t \<Longrightarrow>
     \<exists>i < length vs. vs ! i = w \<and> (\<forall>j < i. vuser (vs ! j) \<noteq> u) \<and>
       castVote vs u t = (vs[i := w\<lparr>vtype := t\<rparr>], if t = Upvote then 2 else - 2)"
proof (induction vs)
  case Nil
  then show ?case by simp
next
  case (Cons x vs)
  show ?case
  proof (cases "vuser x = u")
    case True
    with Cons.prems have "castVote (x # vs) u t = ((x # vs)[0 := w\<lparr>vtype := t\<rparr>], if t = Upvote then 2 else - 2)"
      by (simp add: castVote_Cons)
    moreover from True Cons.prems have "(x # vs) ! 0 = w" by simp
    ultimately show ?thesis by (intro exI [of _ 0]) simp
  next
    case False
    with Cons.prems have f: "find (\<lambda>v. vuser v = u) vs = Some w" by simp
    from Cons.IH [OF f Cons.prems(2)] obtain i where i: "i < length vs" "vs ! i = w"
      "\<forall>j < i. vuser (vs ! j) \<noteq> u"
      "castVote vs u t = (vs[i := w\<lparr>vtype := t\<rparr>], if t = Upvote then 2 else - 2)"
      by blast
    from i False have "\<forall>j < Suc i. vuser ((x # vs) ! j) \<noteq> u"
      by (auto simp: less_Suc_eq_0_disj)
    with i False show ?thesis
      by (intro exI [of _ "Suc i"]) (simp add: castVote_Cons)
  qed
qed

lemma parseVoteType_typeName: "parseVoteType (typeName t) = Some t"
  by (cases t) (simp_all add: parseVoteType_def typeName_def)

lemma parseVoteType_None: "parseVoteType ty = None \<longleftrightarrow> ty \<noteq> ''upvote'' \<and> ty \<noteq> ''downvote''"
  by (simp add: parseVoteType_def)

lemma voteOnThread_found:
  "castObjectId p = Some tid \<Longrightarrow> Threads d tid = Some th \<Longrightarrow>
   voteOnThread castObjectId d rq p (typeName t) =
     (Inr \<lparr>resp_voteScore = voteScore (fst (castVote (votes th) (uid rq) t)),
           resp_userVote = userVote (fst (castVote (votes th) (uid rq) t)) (uid rq)\<rparr>,
      adjustReputation (d\<lparr>Threads := (Threads d)(tid \<mapsto> th\<lparr>votes := fst (castVote (votes th) (uid rq) t)\<rparr>)\<rparr>)
        (author th) (snd (castVote (votes th) (uid rq) t)))"
  by (simp add: voteOnThread_def parseVoteType_typeName split_beta)

lemma adjustReputation_Users:
  "Users (adjustReputation d a k) =
     (case Users d a of None \<Rightarrow> Users d
      | Some x \<Rightarrow> (Users d)(a \<mapsto> x\<lparr>reputation := max 0 (reputation x + k)\<rparr>))"
  by (simp add: adjustReputation_def split: option.splits)

lemma adjustReputation_other:
  "Threads (adjustReputation d a k) = Threads d"
  "Tags (adjustReputation d a k) = Tags d"
  "Categories (adjustReputation d a k) = Categories d"
  by (simp_all add: adjustReputation_def split: option.splits)

lemma voteOnThread_thread:
  "castObjectId p = Some tid \<Longrightarrow> Threads d tid = Some th \<Longrightarrow>
   Threads (snd (voteOnThread castObjectId d rq p (typeName t))) tid =
     Some (th\<lparr>votes := fst (castVote (votes th) (uid rq) t)\<rparr>)"
  by (simp add: voteOnThread_found adjustReputation_other)

lemma voteOnThread_author:
  "castObjectId p = Some tid \<Longrightarrow> Threads d tid = Some th \<Longrightarrow>
   Users (snd (voteOnThread castObjectId d rq p (typeName t))) (author th) =
     map_option (\<lambda>a. a\<lparr>reputation := max 0 (reputation a + snd (castVote (votes th) (uid rq) t))\<rparr>)
       (Users d (author th))"
  by (simp add: voteOnThread_found adjustReputation_Users split: option.splits)

lemma sample_casts:
  "hexObjectId idT1 = Some idT1" "hexObjectId idT2 = Some idT2" "hexObjectId idT3 = Some idT3"
  "hexObjectId idCat = Some idCat" "hexObjectId idTagJs = Some idTagJs"
  "hexObjectId idTagNew = Some idTagNew"
  "hexObjectId ''t1'' = None"
  by (simp_all add: id_defs) code_simp+

lemma sample_votes:
  "castVote (votes sampleThread) idU2 Downvote =
     ([\<lparr>vuser = idU1, vtype = Upvote\<rparr>, \<lparr>vuser = idU2, vtype = Downvote\<rparr>], - 2)"
  "voteScore (votes sampleThread) = 2"
  "author sampleThread = idAuthor"
  "Users sampleDb idAuthor = Some \<lparr>reputation = 10, urole = RoleUser\<rparr>"
  "Threads sampleDb idT1 = Some sampleThread"
  "Threads sampleDb idT2 = Some seededThread"
  "Threads sampleDb idT3 = None"
  by (simp_all add: sample_defs id_defs castVote_Cons castVote_Nil voteScore_Cons voteScore_Nil)

lemma sample_ledger:
  "votes sampleThread = [\<lparr>vuser = idU1, vtype = Upvote\<rparr>, \<lparr>vuser = idU2, vtype = Upvote\<rparr>]"
  by (simp add: sample_defs)

section \<open>The vote handler of a thread\<close>

text \<open>
  C1. A cast with a recognized type follows the three-case rule on the voter's
  existing vote (the first vote of the voter in the ledger): none, the vote is appended
  and the change is +1 for an upvote, -1 for a downvote; same type, that vote is
  removed and the change is -1 for an upvote, +1 for a downvote; opposite type, the
  vote is retyped at its position and the change is +2 for an upvote, -2 for a
  downvote. On an existing thread the handler stores the ledger after the cast, answers
  with count(upvote) - count(downvote) over the stored ledger and applies the change to
  the author's reputation. With a recognized type and a thread id that names no thread
  it fails with NotFound; with any other type it fails with InvalidVote (the type is
  checked first); the store is unchanged in both cases. A thread id of the request that
  is no ObjectId at all does not get as far as the lookup: the cast throws and the
  answer is the 500 of the outer catch.
\<close>

theorem castVote_three_case_rule:
  "(find (\<lambda>v. vuser v = u) vs = None \<longrightarrow>
      castVote vs u t = (vs @ [\<lparr>vuser = u, vtype = t\<rparr>], if t = Upvote then 1 else - 1)) \<and>
   (find (\<lambda>v. vuser v = u) vs = Some w \<and> vtype w = t \<longrightarrow>
      castVote vs u t = (remove1 w vs, if t = Upvote then - 1 else 1)) \<and>
   (find (\<lambda>v. vuser v = u) vs = Some w \<and> vtype w \<noteq> t \<longrightarrow>
      (\<exists>i < length vs. vs ! i = w \<and> (\<forall>j < i. vuser (vs ! j) \<noteq> u) \<and>
         castVote vs u t = (vs[i := w\<lparr>vtype := t\<rparr>], if t = Upvote then 2 else - 2))) \<and>
   (castObjectId p = Some tid \<and> Threads d tid = Some th \<longrightarrow>
      (\<exists>resp d' th'.
         voteOnThread castObjectId d rq p (typeName t) = (Inr resp, d') \<and>
         Threads d' tid = Some th' \<and>
         votes th' = fst (castVote (votes th) (uid rq) t) \<and>
         resp_voteScore resp =
           int (length (filter (\<lambda>v. vtype v = Upvote) (votes th'))) -
           int (length (filter (\<lambda>v. vtype v = Downvote) (votes th'))) \<and>
         Users d' (author th) =
           map_option (\<lambda>a. a\<lparr>reputation := max 0 (reputation a + snd (castVote (votes th) (uid rq) t))\<rparr>)
             (Users d (author th)))) \<and>
   (castObjectId p = Some tid \<and> Threads d tid = None \<longrightarrow>
      voteOnThread castObjectId d rq p (typeName t) = (Inl NotFound, d)) \<and>
   (castObjectId p = None \<longrightarrow>
      voteOnThread castObjectId d rq p (typeName t) = (Inl ServerError, d)) \<and>
   (ty \<noteq> ''upvote'' \<and> ty \<noteq> ''downvote'' \<longrightarrow>
      voteOnThread castObjectId d rq p ty = (Inl InvalidVote, d)) \<and>
   typeName Upvote = ''upvote'' \<and> typeName Downvote = ''downvote''"
proof (intro conjI impI)
  assume a: "castObjectId p = Some tid \<and> Threads d tid = Some th"
  then have c: "castObjectId p = Some tid" and th: "Threads d tid = Some th" by simp_all
  obtain resp d' where v: "voteOnThread castObjectId d rq p (typeName t) = (resp, d')"
    by (cases "voteOnThread castObjectId d rq p (typeName t)")
  from voteOnThread_found [of castObjectId p tid d th rq t] c th v
  have r: "resp = Inr \<lparr>resp_voteScore = voteScore (fst (castVote (votes th) (uid rq) t)),
                        resp_userVote = userVote (fst (castVote (votes th) (uid rq) t)) (uid rq)\<rparr>"
    by simp
  from voteOnThread_thread [of castObjectId p tid d th rq t]
       voteOnThread_author [of castObjectId p tid d th rq t] c th v r
  show "\<exists>resp d' th'.
         voteOnThread castObjectId d rq p (typeName t) = (Inr resp, d') \<and>
         Threads d' tid = Some th' \<and>
         votes th' = fst (castVote (votes th) (uid rq) t) \<and>
         resp_voteScore resp =
           int (length (filter (\<lambda>v. vtype v = Upvote) (votes th'))) -
           int (length (filter (\<lambda>v. vtype v = Downvote) (votes th'))) \<and>
         Users d' (author th) =
           map_option (\<lambda>a. a\<lparr>reputation := max 0 (reputation a + snd (castVote (votes th) (uid rq) t))\<rparr>)
             (Users d (author th))"
    by (simp add: voteScore_def upvotes_def downvotes_def)
next
  assume "find (\<lambda>v. vuser v = u) vs = Some w \<and> vtype w \<noteq> t"
  then show "\<exists>i < length vs. vs ! i = w \<and> (\<forall>j < i. vuser (vs ! j) \<noteq> u) \<and>
         castVote vs u t = (vs[i := w\<lparr>vtype := t\<rparr>], if t = Upvote then 2 else - 2)"
    using castVote_opposite [of u vs w t] by blast
next
  assume "castObjectId p = Some tid \<and> Threads d tid = None"
  then show "voteOnThread castObjectId d rq p (typeName t) = (Inl NotFound, d)"
    by (simp add: voteOnThread_def parseVoteType_typeName)
next
  assume "castObjectId p = None"
  then show "voteOnThread castObjectId d rq p (typeName t) = (Inl ServerError, d)"
    by (simp add: voteOnThread_def parseVoteType_typeName)
next
  assume "ty \<noteq> ''upvote'' \<and> ty \<noteq> ''downvote''"
  then show "voteOnThread castObjectId d rq p ty = (Inl InvalidVote, d)"
    by (simp add: voteOnThread_def parseVoteType_def)
qed (simp_all add: castVote_absent castVote_same typeName_def)

theorem castVote_three_case_rule_witness:
  "find (\<lambda>v. vuser v = idU3) (votes sampleThread) = None \<and>
   castVote (votes sampleThread) idU3 Downvote =
     (votes sampleThread @ [\<lparr>vuser = idU3, vtype = Downvote\<rparr>], - 1) \<and>
   find (\<lambda>v. vuser v = idU2) (votes sampleThread) = Some \<lparr>vuser = idU2, vtype = Upvote\<rparr> \<and>
   castVote (votes sampleThread) idU2 Upvote = ([\<lparr>vuser = idU1, vtype = Upvote\<rparr>], - 1) \<and>
   castVote (votes sampleThread) idU2 Downvote =
     ([\<lparr>vuser = idU1, vtype = Upvote\<rparr>, \<lparr>vuser = idU2, vtype = Downvote\<rparr>], - 2) \<and>
   hexObjectId idT1 = Some idT1 \<and> Threads sampleDb idT1 = Some sampleThread \<and>
   (\<exists>resp d' th'.
      voteOnThread hexObjectId sampleDb \<lparr>uid = idU2, rrole = RoleUser\<rparr> idT1 ''downvote'' = (Inr resp, d') \<and>
      Threads d' idT1 = Some th' \<and>
      votes th' = [\<lparr>vuser = idU1, vtype = Upvote\<rparr>, \<lparr>vuser = idU2, vtype = Downvote\<rparr>] \<and>
      resp_voteScore resp = 0 \<and>
      Users d' idAuthor = Some \<lparr>reputation = 8, urole = RoleUser\<rparr>) \<and>
   hexObjectId idT3 = Some idT3 \<and> Threads sampleDb idT3 = None \<and>
   voteOnThread hexObjectId sampleDb \<lparr>uid = idU2, rrole = RoleUser\<rparr> idT3 ''downvote'' = (Inl NotFound, sampleDb) \<and>
   hexObjectId ''t1'' = None \<and>
   voteOnThread hexObjectId sampleDb \<lparr>uid = idU2, rrole = RoleUser\<rparr> ''t1'' ''upvote'' = (Inl ServerError, sampleDb) \<and>
   voteOnThread hexObjectId sampleDb \<lparr>uid = idU2, rrole = RoleUser\<rparr> idT1 ''sideways'' = (Inl InvalidVote, sampleDb)"
proof -
  have f: "find (\<lambda>v. vuser v = idU3) (votes sampleThread) = None"
          "find (\<lambda>v. vuser v = idU2) (votes sampleThread) = Some \<lparr>vuser = idU2, vtype = Upvote\<rparr>"
    by (simp_all add: sample_defs id_defs)
  note a = castVote_three_case_rule
             [of idU3 "votes sampleThread" Downvote "\<lparr>vuser = idU2, vtype = Upvote\<rparr>"
                 hexObjectId idT3 idT3 sampleDb sampleThread "\<lparr>uid = idU2, rrole = RoleUser\<rparr>" "''sideways''"]
  note b = castVote_three_case_rule
             [of idU2 "votes sampleThread" Upvote "\<lparr>vuser = idU2, vtype = Upvote\<rparr>"
                 hexObjectId "''t1''" idT1 sampleDb sampleThread "\<lparr>uid = idU2, rrole = RoleUser\<rparr>" "''sideways''"]
  note c = castVote_three_case_rule
             [of idU2 "votes sampleThread" Downvote "\<lparr>vuser = idU2, vtype = Upvote\<rparr>"
                 hexObjectId idT1 idT1 sampleDb sampleThread "\<lparr>uid = idU2, rrole = RoleUser\<rparr>" "''sideways''"]
  from a f sample_casts sample_votes have 1: "castVote (votes sampleThread) idU3 Downvote =
     (votes sampleThread @ [\<lparr>vuser = idU3, vtype = Downvote\<rparr>], - 1)"
    "voteOnThread hexObjectId sampleDb \<lparr>uid = idU2, rrole = RoleUser\<rparr> idT3 ''downvote'' = (Inl NotFound, sampleDb)"
    by (simp_all add: typeName_def)
  from b f sample_casts have 2: "castVote (votes sampleThread) idU2 Upvote = ([\<lparr>vuser = idU1, vtype = Upvote\<rparr>], - 1)"
    "voteOnThread hexObjectId sampleDb \<lparr>uid = idU2, rrole = RoleUser\<rparr> ''t1'' ''upvote'' = (Inl ServerError, sampleDb)"
    by (simp_all add: sample_ledger id_defs typeName_def)
  from c have 4: "voteOnThread hexObjectId sampleDb \<lparr>uid = idU2, rrole = RoleUser\<rparr> idT1 ''sideways'' = (Inl InvalidVote, sampleDb)"
    by simp
  from c [THEN conjunct2, THEN conjunct2, THEN conjunct2, THEN conjunct1] sample_votes(5) sample_casts(1)
  obtain resp d' th' where r:
    "voteOnThread hexObjectId sampleDb \<lparr>uid = idU2, rrole = RoleUser\<rparr> idT1 (typeName Downvote) = (Inr resp, d')"
    "Threads d' idT1 = Some th'"
    "votes th' = fst (castVote (votes sampleThread) (uid \<lparr>uid = idU2, rrole = RoleUser\<rparr>) Downvote)"
    "resp_voteScore resp =
       int (length (filter (\<lambda>v. vtype v = Upvote) (votes th'))) -
       int (length (filter (\<lambda>v. vtype v = Downvote) (votes th')))"
    "Users d' (author sampleThread) =
       map_option
         (\<lambda>a. a\<lparr>reputation := max 0 (reputation a +
            snd (castVote (votes sampleThread) (uid \<lparr>uid = idU2, rrole = RoleUser\<rparr>) Downvote))\<rparr>)
         (Users sampleDb (author sampleThread))"
    by blast
  from r(3) have v': "votes th' = [\<lparr>vuser = idU1, vtype = Upvote\<rparr>, \<lparr>vuser = idU2, vtype = Downvote\<rparr>]"
    by (simp add: sample_votes)
  from r(4) v' have s': "resp_voteScore resp = 0" by simp
  from r(5) have u': "Users d' idAuthor = Some \<lparr>reputation = 8, urole = RoleUser\<rparr>"
    by (simp add: sample_votes)
  from r(1,2) v' s' u' have 3: "\<exists>resp d' th'.
      voteOnThread hexObjectId sampleDb \<lparr>uid = idU2, rrole = RoleUser\<rparr> idT1 ''downvote'' = (Inr resp, d') \<and>
      Threads d' idT1 = Some th' \<and>
      votes th' = [\<lparr>vuser = idU1, vtype = Upvote\<rparr>, \<lparr>vuser = idU2, vtype = Downvote\<rparr>] \<and>
      resp_voteScore resp = 0 \<and>
      Users d' idAuthor = Some \<lparr>reputation = 8, urole = RoleUser\<rparr>"
    by (simp add: typeName_def)
  from 1 2 3 4 f sample_votes sample_casts show ?thesis by simp
qed

section \<open>Casting twice, and switching\<close>







section \<open>The reply tree\<close>

subsection \<open>Where a walk ends\<close>

lemma find_append_first:
  "find P (xs @ ys) = (case find P xs of Some x \<Rightarrow> Some x | None \<Rightarrow> find P ys)"
  by (induction xs) auto

lemma reach_Nil: "reach i k [] = None"
  by (simp add: reach_def)

lemma reach_Cons:
  "reach i k (Reply f kids # rest) =
     (if r_id f = None \<or> r_id f = Some i then Some (k, Reply f kids)
      else (case reach i (Suc k) kids of Some x \<Rightarrow> Some x | None \<Rightarrow> reach i k rest))"
  by (simp add: reach_def find_append_first split: option.splits)

lemma replyIds_Nil: "replyIds [] = []"
  by (simp add: replyIds_def)

lemma replyIds_Cons:
  "replyIds (Reply f kids # rest) = r_id f # replyIds kids @ replyIds rest"
  by (simp add: replyIds_def)

lemma ledgers_Nil: "ledgers [] = []"
  by (simp add: ledgers_def)

lemma ledgers_Cons: "ledgers (Reply f kids # rest) = r_votes f # ledgers kids @ ledgers rest"
  by (simp add: ledgers_def)

lemma reach_depth: "reach i k rs = Some (j, r) \<Longrightarrow> k \<le> j"
proof (induction rs arbitrary: k rule: allReplies.induct)
  case 1
  then show ?case by (simp add: reach_Nil)
next
  case (2 f kids rest)
  from "2.prems" "2.IH"(1) [of "Suc k"] "2.IH"(2) [of k] show ?case
    by (auto simp: reach_Cons split: if_splits option.splits)
qed

lemma reach_stops:
  "reach i k rs = Some (j, r) \<Longrightarrow> r_id (r_fields r) = None \<or> r_id (r_fields r) = Some i"
proof (induction rs arbitrary: k rule: allReplies.induct)
  case 1
  then show ?case by (simp add: reach_Nil)
next
  case (2 f kids rest)
  from "2.prems" "2.IH"(1) [of "Suc k"] "2.IH"(2) [of k] show ?case
    by (auto simp: reach_Cons split: if_splits option.splits)
qed

lemma reach_None:
  "reach i k rs = None \<longleftrightarrow> None \<notin> set (replyIds rs) \<and> Some i \<notin> set (replyIds rs)"
proof (induction rs arbitrary: k rule: allReplies.induct)
  case 1
  show ?case by (simp add: reach_Nil replyIds_Nil)
next
  case (2 f kids rest)
  from "2.IH"(1) [of "Suc k"] "2.IH"(2) [of k] show ?case
    by (auto simp: reach_Cons replyIds_Cons split: option.splits)
qed

lemma reach_top:
  "reach i k rs = Some (k, r) \<Longrightarrow>
   \<exists>pre post. rs = pre @ r # post \<and> reach i k pre = None"
proof (induction rs rule: allReplies.induct)
  case 1
  then show ?case by (simp add: reach_Nil)
next
  case (2 f kids rest)
  show ?case
  proof (cases "r_id f = None \<or> r_id f = Some i")
    case True
    with "2.prems" have "r = Reply f kids" by (simp add: reach_Cons)
    then have "Reply f kids # rest = [] @ r # rest \<and> reach i k [] = None"
      by (simp add: reach_Nil)
    then show ?thesis by blast
  next
    case False
    show ?thesis
    proof (cases "reach i (Suc k) kids")
      case None
      with False "2.prems" have "reach i k rest = Some (k, r)" by (auto simp: reach_Cons)
      from "2.IH"(2) [OF this] obtain pre post where
        h: "rest = pre @ r # post" "reach i k pre = None" by blast
      from h False None have "Reply f kids # rest = (Reply f kids # pre) @ r # post \<and>
          reach i k (Reply f kids # pre) = None"
        by (auto simp: reach_Cons)
      then show ?thesis by blast
    next
      case (Some x)
      with False "2.prems" have "reach i (Suc k) kids = Some (k, r)" by (auto simp: reach_Cons)
      from reach_depth [OF this] show ?thesis by simp
    qed
  qed
qed

subsection \<open>Voting on a node\<close>

lemma findAndVoteReply_Cons:
  "findAndVoteReply i u t k (Reply f kids # rest) =
     (case r_id f of
        None \<Rightarrow> Inl TypeError
      | Some j \<Rightarrow>
          if j = i then
            Inr (Some (k, votedNode u t (Reply f kids), snd (castVote (r_votes f) u t)),
                 votedNode u t (Reply f kids) # rest)
          else
            (case findAndVoteReply i u t (Suc k) kids of
               Inl e \<Rightarrow> Inl e
             | Inr (Some result, kids') \<Rightarrow> Inr (Some result, Reply f kids' # rest)
             | Inr (None, kids') \<Rightarrow>
                 (case findAndVoteReply i u t k rest of
                    Inl e \<Rightarrow> Inl e
                  | Inr (result, rest') \<Rightarrow> Inr (result, Reply f kids' # rest'))))"
  by (cases kids) (simp_all add: split_beta votedNode_def Let_def split: option.splits)

declare findAndVoteReply.simps(2) [simp del]

lemma findAndVoteReply_absent:
  "reach i k rs = None \<Longrightarrow> findAndVoteReply i u t k rs = Inr (None, rs)"
proof (induction rs arbitrary: k rule: allReplies.induct)
  case 1
  show ?case by simp
next
  case (2 f kids rest)
  from "2.prems" obtain j where "r_id f = Some j" "j \<noteq> i"
    "reach i (Suc k) kids = None" "reach i k rest = None"
    by (auto simp: reach_Cons split: if_splits option.splits)
  with "2.IH" show ?case
    by (simp add: findAndVoteReply_Cons)
qed

lemma findAndVoteReply_throws:
  "reach i k rs = Some (j, r) \<Longrightarrow> r_id (r_fields r) = None \<Longrightarrow>
   findAndVoteReply i u t k rs = Inl TypeError"
proof (induction rs arbitrary: k rule: allReplies.induct)
  case 1
  then show ?case by (simp add: reach_Nil)
next
  case (2 f kids rest)
  show ?case
  proof (cases "r_id f")
    case None
    then show ?thesis by (simp add: findAndVoteReply_Cons)
  next
    case (Some a)
    with "2.prems" have ne: "a \<noteq> i" by (auto simp: reach_Cons)
    show ?thesis
    proof (cases "reach i (Suc k) kids")
      case None
      with Some ne "2.prems" have "reach i k rest = Some (j, r)" by (simp add: reach_Cons)
      with "2.IH"(2) "2.prems"(2) Some ne None show ?thesis
        by (simp add: findAndVoteReply_Cons findAndVoteReply_absent)
    next
      case (Some x)
      with \<open>r_id f = Some a\<close> ne "2.prems" have "reach i (Suc k) kids = Some (j, r)"
        by (simp add: reach_Cons)
      with "2.IH"(1) "2.prems"(2) \<open>r_id f = Some a\<close> ne show ?thesis
        by (simp add: findAndVoteReply_Cons)
    qed
  qed
qed

lemma findAndVoteReply_present:
  "reach i k rs = Some (j, r) \<Longrightarrow> r_id (r_fields r) = Some i \<Longrightarrow>
   \<exists>rs'. findAndVoteReply i u t k rs =
           Inr (Some (j, votedNode u t r, snd (castVote (r_votes (r_fields r)) u t)), rs') \<and>
         reach i k rs' = Some (j, votedNode u t r)"
proof (induction rs arbitrary: k rule: allReplies.induct)
  case 1
  then show ?case by (simp add: reach_Nil)
next
  case (2 f kids rest)
  from "2.prems" obtain a where a: "r_id f = Some a"
    by (cases "r_id f") (auto simp: reach_Cons)
  show ?case
  proof (cases "a = i")
    case True
    with a "2.prems" have r: "r = Reply f kids" "j = k" by (simp_all add: reach_Cons)
    have "reach i k (votedNode u t (Reply f kids) # rest) = Some (k, votedNode u t (Reply f kids))"
      using a True by (simp add: votedNode_def reach_Cons)
    with a True r show ?thesis
      by (simp add: findAndVoteReply_Cons)
  next
    case False
    show ?thesis
    proof (cases "reach i (Suc k) kids")
      case None
      with a False "2.prems" have "reach i k rest = Some (j, r)" by (simp add: reach_Cons)
      from "2.IH"(2) [OF this "2.prems"(2)] obtain rs' where
        h: "findAndVoteReply i u t k rest =
              Inr (Some (j, votedNode u t r, snd (castVote (r_votes (r_fields r)) u t)), rs')"
           "reach i k rs' = Some (j, votedNode u t r)"
        by blast
      with a False None show ?thesis
        by (simp add: findAndVoteReply_Cons findAndVoteReply_absent reach_Cons)
    next
      case (Some x)
      with a False "2.prems" have "reach i (Suc k) kids = Some (j, r)" by (simp add: reach_Cons)
      from "2.IH"(1) [OF this "2.prems"(2)] obtain rs' where
        h: "findAndVoteReply i u t (Suc k) kids =
              Inr (Some (j, votedNode u t r, snd (castVote (r_votes (r_fields r)) u t)), rs')"
           "reach i (Suc k) rs' = Some (j, votedNode u t r)"
        by blast
      with a False show ?thesis
        by (simp add: findAndVoteReply_Cons reach_Cons)
    qed
  qed
qed

lemma findAndVoteReply_top:
  "reach i k pre = None \<Longrightarrow> r_id (r_fields r) = Some i \<Longrightarrow>
   findAndVoteReply i u t k (pre @ r # post) =
     Inr (Some (k, votedNode u t r, snd (castVote (r_votes (r_fields r)) u t)),
          pre @ votedNode u t r # post)"
proof (induction pre)
  case Nil
  then show ?case by (cases r) (simp add: findAndVoteReply_Cons)
next
  case (Cons x pre)
  obtain f kids where x: "x = Reply f kids" by (cases x)
  from Cons.prems(1) x obtain j where "r_id f = Some j" "j \<noteq> i"
    "reach i (Suc k) kids = None" "reach i k pre = None"
    by (auto simp: reach_Cons split: if_splits option.splits)
  with Cons.IH Cons.prems(2) x show ?case
    by (simp add: findAndVoteReply_Cons findAndVoteReply_absent)
qed

lemma findAndVoteReply_ledgers:
  "findAndVoteReply i u t k rs = Inr (res, rs') \<Longrightarrow>
   set (ledgers rs') \<subseteq> set (ledgers rs) \<union> (\<lambda>vs. fst (castVote vs u t)) ` set (ledgers rs)"
proof (induction rs arbitrary: k res rs' rule: allReplies.induct)
  case 1
  then show ?case by (simp add: ledgers_Nil)
next
  case (2 f kids rest)
  from "2.prems" obtain a where a: "r_id f = Some a"
    by (cases "r_id f") (auto simp: findAndVoteReply_Cons)
  show ?case
  proof (cases "a = i")
    case True
    with a "2.prems" show ?thesis
      by (auto simp: findAndVoteReply_Cons ledgers_Cons votedNode_def)
  next
    case False
    with a "2.prems" obtain resk kids' where
      k: "findAndVoteReply i u t (Suc k) kids = Inr (resk, kids')"
      by (cases "findAndVoteReply i u t (Suc k) kids") (auto simp: findAndVoteReply_Cons)
    note ik = "2.IH"(1) [OF k]
    show ?thesis
    proof (cases resk)
      case None
      with a False k "2.prems" obtain rest' where
        r: "findAndVoteReply i u t k rest = Inr (res, rest')" "rs' = Reply f kids' # rest'"
        by (cases "findAndVoteReply i u t k rest") (auto simp: findAndVoteReply_Cons)
      from "2.IH"(2) [OF r(1)] ik r(2) show ?thesis
        by (auto simp: ledgers_Cons)
    next
      case (Some x)
      with a False k "2.prems" have "rs' = Reply f kids' # rest"
        by (auto simp: findAndVoteReply_Cons)
      with ik show ?thesis by (auto simp: ledgers_Cons)
    qed
  qed
qed

section \<open>What a save writes\<close>

lemma preSave_fields:
  "isLocked (preSave now th th') = isLocked th'" "replies (preSave now th th') = replies th'"
  "votes (preSave now th th') = votes th'" "author (preSave now th th') = author th'"
  by (simp_all add: preSave_def)

lemma saveThread_Threads:
  "Threads (saveThread now d tid th th' m) =
     (Threads d)(tid \<mapsto> preSave now th (if m then th' else th'\<lparr>replies := replies th\<rparr>))"
  by (simp add: saveThread_def Let_def)

lemma saveThread_other:
  "Users (saveThread now d tid th th' m) = Users d"
  "Tags (saveThread now d tid th th' m) = Tags d"
  "Categories (saveThread now d tid th th' m) = Categories d"
  by (simp_all add: saveThread_def Let_def)

lemma saveThread_unmarked:
  "Threads d tid = Some th \<Longrightarrow> saveThread now d tid th (th\<lparr>replies := rs'\<rparr>) False = d"
  by (simp add: saveThread_def preSave_def map_upd_triv)

section \<open>The vote handler of a reply, and the score\<close>

lemma voteOnReply_found:
  assumes "castObjectId p = Some tid" "Threads d tid = Some th"
    "reach i 0 (replies th) = Some (j, r)" "r_id (r_fields r) = Some i"
  shows "\<exists>rs'. reach i 0 rs' = Some (j, votedNode (uid rq) t r) \<and>
     (j = 0 \<longrightarrow> (\<exists>pre post. replies th = pre @ r # post \<and>
                   rs' = pre @ votedNode (uid rq) t r # post \<and> reach i 0 pre = None)) \<and>
     voteOnReply castObjectId now d rq p i (typeName t) =
       (Inr \<lparr>resp_voteScore = voteScore (fst (castVote (r_votes (r_fields r)) (uid rq) t)),
             resp_userVote = userVote (fst (castVote (r_votes (r_fields r)) (uid rq) t)) (uid rq)\<rparr>,
        adjustReputation (saveThread now d tid th (th\<lparr>replies := rs'\<rparr>) (j = 0))
          (r_author (r_fields r)) (snd (castVote (r_votes (r_fields r)) (uid rq) t)))"
proof -
  from findAndVoteReply_present [OF assms(3,4), of "uid rq" t] obtain rs' where
    h: "findAndVoteReply i (uid rq) t 0 (replies th) =
          Inr (Some (j, votedNode (uid rq) t r, snd (castVote (r_votes (r_fields r)) (uid rq) t)), rs')"
       "reach i 0 rs' = Some (j, votedNode (uid rq) t r)"
    by blast
  have top: "\<exists>pre post. replies th = pre @ r # post \<and>
                   rs' = pre @ votedNode (uid rq) t r # post \<and> reach i 0 pre = None" if "j = 0"
  proof -
    from that assms(3) reach_top [of i 0 "replies th" r] obtain pre post where
      pp: "replies th = pre @ r # post" "reach i 0 pre = None" by blast
    from findAndVoteReply_top [OF pp(2) assms(4), of "uid rq" t post] h(1) pp(1)
    have "rs' = pre @ votedNode (uid rq) t r # post" by simp
    with pp show ?thesis by blast
  qed
  from assms(1,2) h(1)
  have "voteOnReply castObjectId now d rq p i (typeName t) =
       (Inr \<lparr>resp_voteScore = voteScore (fst (castVote (r_votes (r_fields r)) (uid rq) t)),
             resp_userVote = userVote (fst (castVote (r_votes (r_fields r)) (uid rq) t)) (uid rq)\<rparr>,
        adjustReputation (saveThread now d tid th (th\<lparr>replies := rs'\<rparr>) (j = 0))
          (r_author (r_fields r)) (snd (castVote (r_votes (r_fields r)) (uid rq) t)))"
    by (simp add: voteOnReply_def parseVoteType_typeName votedNode_def Let_def)
  with h(2) top show ?thesis by blast
qed

text \<open>
  C10. In every branch of a cast (add, toggle-off, flip) the score after the cast is
  the score before it plus \<open>voteChange\<close>. The thread handler stores the ledger after the
  cast, so the score of the stored thread moves by exactly \<open>voteChange\<close>; it answers
  with that score and hands the same \<open>voteChange\<close> to the reputation update of the
  thread's author. The reply handler does the same for a reply of the thread (an element
  of \<open>thread.replies\<close> that its id identifies): the score of the stored reply moves by
  \<open>voteChange\<close>, which is what the reply's author receives.
\<close>

theorem score_after_cast_is_score_plus_delta:
  "voteScore (fst (castVote vs u t)) = voteScore vs + snd (castVote vs u t) \<and>
   (castObjectId p = Some tid \<and> Threads d tid = Some th \<longrightarrow>
      (\<exists>resp d' th'. voteOnThread castObjectId d rq p (typeName t) = (Inr resp, d') \<and>
         Threads d' tid = Some th' \<and>
         voteScore (votes th') = voteScore (votes th) + snd (castVote (votes th) (uid rq) t) \<and>
         resp_voteScore resp = voteScore (votes th') \<and>
         Users d' (author th) =
           map_option (\<lambda>a. a\<lparr>reputation := max 0 (reputation a + snd (castVote (votes th) (uid rq) t))\<rparr>)
             (Users d (author th)))) \<and>
   (castObjectId p = Some tid \<and> Threads d tid = Some th \<and>
    reach i 0 (replies th) = Some (0, r) \<and> r_id (r_fields r) = Some i \<longrightarrow>
      (\<exists>resp d' th' r'. voteOnReply castObjectId now d rq p i (typeName t) = (Inr resp, d') \<and>
         Threads d' tid = Some th' \<and> reach i 0 (replies th') = Some (0, r') \<and>
         voteScore (r_votes (r_fields r')) =
           voteScore (r_votes (r_fields r)) + snd (castVote (r_votes (r_fields r)) (uid rq) t) \<and>
         resp_voteScore resp = voteScore (r_votes (r_fields r')) \<and>
         Users d' (r_author (r_fields r)) =
           map_option
             (\<lambda>a. a\<lparr>reputation := max 0 (reputation a + snd (castVote (r_votes (r_fields r)) (uid rq) t))\<rparr>)
             (Users d (r_author (r_fields r)))))"
proof (intro conjI impI)
  show "voteScore (fst (castVote vs u t)) = voteScore vs + snd (castVote vs u t)"
    by (rule castVote_score)
next
  assume a: "castObjectId p = Some tid \<and> Threads d tid = Some th"
  with voteOnThread_found [of castObjectId p tid d th rq t]
  show "\<exists>resp d' th'. voteOnThread castObjectId d rq p (typeName t) = (Inr resp, d') \<and>
         Threads d' tid = Some th' \<and>
         voteScore (votes th') = voteScore (votes th) + snd (castVote (votes th) (uid rq) t) \<and>
         resp_voteScore resp = voteScore (votes th') \<and>
         Users d' (author th) =
           map_option (\<lambda>a. a\<lparr>reputation := max 0 (reputation a + snd (castVote (votes th) (uid rq) t))\<rparr>)
             (Users d (author th))"
    by (simp add: castVote_score adjustReputation_Users adjustReputation_other split: option.splits)
next
  assume a: "castObjectId p = Some tid \<and> Threads d tid = Some th \<and>
    reach i 0 (replies th) = Some (0, r) \<and> r_id (r_fields r) = Some i"
  let ?r' = "votedNode (uid rq) t r"
  let ?delta = "snd (castVote (r_votes (r_fields r)) (uid rq) t)"
  from a voteOnReply_found [of castObjectId p tid d th i 0 r rq t now] obtain rs' where
    h: "reach i 0 rs' = Some (0, ?r')"
       "voteOnReply castObjectId now d rq p i (typeName t) =
         (Inr \<lparr>resp_voteScore = voteScore (fst (castVote (r_votes (r_fields r)) (uid rq) t)),
               resp_userVote = userVote (fst (castVote (r_votes (r_fields r)) (uid rq) t)) (uid rq)\<rparr>,
          adjustReputation (saveThread now d tid th (th\<lparr>replies := rs'\<rparr>) (0 = (0::nat)))
            (r_author (r_fields r)) ?delta)"
    by blast
  let ?d' = "adjustReputation (saveThread now d tid th (th\<lparr>replies := rs'\<rparr>) True) (r_author (r_fields r)) ?delta"
  let ?th' = "preSave now th (th\<lparr>replies := rs'\<rparr>)"
  have 1: "Threads ?d' tid = Some ?th'"
    by (simp add: adjustReputation_other saveThread_Threads)
  have 2: "reach i 0 (replies ?th') = Some (0, ?r')"
    using h(1) by (simp add: preSave_fields)
  have 3: "voteScore (r_votes (r_fields ?r')) = voteScore (r_votes (r_fields r)) + ?delta"
    by (simp add: votedNode_def castVote_score)
  have 4: "Users ?d' (r_author (r_fields r)) =
           map_option (\<lambda>a. a\<lparr>reputation := max 0 (reputation a + ?delta)\<rparr>) (Users d (r_author (r_fields r)))"
    by (simp add: adjustReputation_Users saveThread_other split: option.splits)
  from h(2) have 5: "voteOnReply castObjectId now d rq p i (typeName t) =
         (Inr \<lparr>resp_voteScore = voteScore (r_votes (r_fields ?r')),
               resp_userVote = userVote (fst (castVote (r_votes (r_fields r)) (uid rq) t)) (uid rq)\<rparr>, ?d')"
    by (simp add: votedNode_def)
  from 1 2 3 4 5
  show "\<exists>resp d' th' r'. voteOnReply castObjectId now d rq p i (typeName t) = (Inr resp, d') \<and>
         Threads d' tid = Some th' \<and> reach i 0 (replies th') = Some (0, r') \<and>
         voteScore (r_votes (r_fields r')) =
           voteScore (r_votes (r_fields r)) + snd (castVote (r_votes (r_fields r)) (uid rq) t) \<and>
         resp_voteScore resp = voteScore (r_votes (r_fields r')) \<and>
         Users d' (r_author (r_fields r)) =
           map_option
             (\<lambda>a. a\<lparr>reputation := max 0 (reputation a + snd (castVote (r_votes (r_fields r)) (uid rq) t))\<rparr>)
             (Users d (r_author (r_fields r)))"
    by (intro exI [of _ "\<lparr>resp_voteScore = voteScore (r_votes (r_fields ?r')),
               resp_userVote = userVote (fst (castVote (r_votes (r_fields r)) (uid rq) t)) (uid rq)\<rparr>"]
          exI [of _ ?d'] exI [of _ ?th'] exI [of _ ?r']) simp
qed

text \<open>
  Below the elements of \<open>thread.replies\<close> the same request answers with the score after the
  cast and moves the author's reputation, but writes nothing: the stored ledger and score
  stay as they were, and the next request of the same voter casts on the stored ledger
  again.
\<close>

lemma voteOnReply_below_top:
  assumes "castObjectId p = Some tid" "Threads d tid = Some th"
    "reach i 0 (replies th) = Some (j, r)" "r_id (r_fields r) = Some i" "0 < j"
  shows "\<exists>resp d'. voteOnReply castObjectId now d rq p i (typeName t) = (Inr resp, d') \<and>
     resp_voteScore resp =
       voteScore (r_votes (r_fields r)) + snd (castVote (r_votes (r_fields r)) (uid rq) t) \<and>
     Threads d' = Threads d \<and>
     Users d' (r_author (r_fields r)) =
       map_option
         (\<lambda>a. a\<lparr>reputation := max 0 (reputation a + snd (castVote (r_votes (r_fields r)) (uid rq) t))\<rparr>)
         (Users d (r_author (r_fields r)))"
proof -
  from voteOnReply_found [of castObjectId p tid d th i j r rq t now] assms(1-4) obtain rs' where
    h: "voteOnReply castObjectId now d rq p i (typeName t) =
         (Inr \<lparr>resp_voteScore = voteScore (fst (castVote (r_votes (r_fields r)) (uid rq) t)),
               resp_userVote = userVote (fst (castVote (r_votes (r_fields r)) (uid rq) t)) (uid rq)\<rparr>,
          adjustReputation (saveThread now d tid th (th\<lparr>replies := rs'\<rparr>) (j = 0))
            (r_author (r_fields r)) (snd (castVote (r_votes (r_fields r)) (uid rq) t)))"
    by blast
  from assms(5) saveThread_unmarked [OF assms(2), of now rs']
  have "saveThread now d tid th (th\<lparr>replies := rs'\<rparr>) (j = 0) = d" by simp
  with h show ?thesis
    by (simp add: castVote_score adjustReputation_Users adjustReputation_other split: option.splits)
qed

lemma voteOnReply_throws:
  "castObjectId p = Some tid \<Longrightarrow> Threads d tid = Some th \<Longrightarrow>
   reach i 0 (replies th) = Some (j, r) \<Longrightarrow> r_id (r_fields r) = None \<Longrightarrow>
   voteOnReply castObjectId now d rq p i (typeName t) = (Inl ServerError, d)"
  by (simp add: voteOnReply_def parseVoteType_typeName findAndVoteReply_throws)

lemma sample_tree:
  "replies sampleThread = [firstReply, secondReply]"
  "reach idF 0 [firstReply, secondReply] = Some (0, firstReply)"
  "reach idS 0 [firstReply, secondReply] = Some (1, nestedReply)"
  "r_id (r_fields firstReply) = Some idF"
  "r_id (r_fields nestedReply) = None"
  "r_author (r_fields firstReply) = idU3"
  "r_votes (r_fields firstReply) = []"
  "Users sampleDb idU3 = Some \<lparr>reputation = 5, urole = RoleUser\<rparr>"
  by (simp_all add: sample_defs id_defs reach_Cons reach_Nil)

lemma seeded_tree:
  "replies seededThread = [sampleA]"
  "reach idA 0 [sampleA] = Some (0, sampleA)"
  "reach idB 0 [sampleA] = Some (1, sampleB)"
  "reach idC 0 [sampleA] = Some (2, sampleC)"
  "reach idZ 0 [sampleA] = None"
  "r_id (r_fields sampleA) = Some idA"
  "r_id (r_fields sampleB) = Some idB"
  "r_id (r_fields sampleC) = Some idC"
  by (simp_all add: sample_defs id_defs reach_Cons reach_Nil)

theorem score_after_cast_is_score_plus_delta_witness:
  "hexObjectId idT1 = Some idT1 \<and> Threads sampleDb idT1 = Some sampleThread \<and>
   reach idF 0 (replies sampleThread) = Some (0, firstReply) \<and>
   r_id (r_fields firstReply) = Some idF \<and>
   voteScore (votes sampleThread) = 2 \<and> voteScore (r_votes (r_fields firstReply)) = 0 \<and>
   (\<exists>resp d' th'.
      voteOnThread hexObjectId sampleDb \<lparr>uid = idU2, rrole = RoleUser\<rparr> idT1 ''downvote'' = (Inr resp, d') \<and>
      Threads d' idT1 = Some th' \<and> voteScore (votes th') = 0 \<and> resp_voteScore resp = 0 \<and>
      Users d' idAuthor = Some \<lparr>reputation = 8, urole = RoleUser\<rparr>) \<and>
   (\<exists>resp d' th' r'.
      voteOnReply hexObjectId 7 sampleDb \<lparr>uid = idU1, rrole = RoleUser\<rparr> idT1 idF ''upvote'' = (Inr resp, d') \<and>
      Threads d' idT1 = Some th' \<and> reach idF 0 (replies th') = Some (0, r') \<and>
      voteScore (r_votes (r_fields r')) = 1 \<and> resp_voteScore resp = 1 \<and>
      Users d' idU3 = Some \<lparr>reputation = 6, urole = RoleUser\<rparr>)"
proof -
  from score_after_cast_is_score_plus_delta
         [of "votes sampleThread" idU2 Downvote hexObjectId idT1 idT1 sampleDb sampleThread
             "\<lparr>uid = idU2, rrole = RoleUser\<rparr>", THEN conjunct2, THEN conjunct1]
  have 1: "\<exists>resp d' th'.
      voteOnThread hexObjectId sampleDb \<lparr>uid = idU2, rrole = RoleUser\<rparr> idT1 ''downvote'' = (Inr resp, d') \<and>
      Threads d' idT1 = Some th' \<and> voteScore (votes th') = 0 \<and> resp_voteScore resp = 0 \<and>
      Users d' idAuthor = Some \<lparr>reputation = 8, urole = RoleUser\<rparr>"
    by (auto simp: sample_votes sample_casts typeName_def)
  from score_after_cast_is_score_plus_delta
         [of "[]" idU1 Upvote hexObjectId idT1 idT1 sampleDb sampleThread
             "\<lparr>uid = idU1, rrole = RoleUser\<rparr>" idF firstReply 7, THEN conjunct2, THEN conjunct2]
  have 2: "\<exists>resp d' th' r'.
      voteOnReply hexObjectId 7 sampleDb \<lparr>uid = idU1, rrole = RoleUser\<rparr> idT1 idF ''upvote'' = (Inr resp, d') \<and>
      Threads d' idT1 = Some th' \<and> reach idF 0 (replies th') = Some (0, r') \<and>
      voteScore (r_votes (r_fields r')) = 1 \<and> resp_voteScore resp = 1 \<and>
      Users d' idU3 = Some \<lparr>reputation = 6, urole = RoleUser\<rparr>"
    by (auto simp: sample_votes sample_casts sample_tree typeName_def castVote_Nil voteScore_Nil)
  from 1 2 show ?thesis
    by (simp add: sample_votes sample_casts sample_tree voteScore_Nil)
qed

section \<open>One vote per voter\<close>

lemma castVotes_distinct:
  "distinct (map vuser vs) \<Longrightarrow> distinct (map vuser (castVotes vs cs))"
  by (induction vs cs rule: castVotes.induct) (simp_all add: castVote_distinct)

lemma voteOnThread_ledgersOk:
  assumes "Threads d tid = Some th" "ledgersOk th"
  shows "\<exists>th'. Threads (snd (voteOnThread castObjectId d rq p ty)) tid = Some th' \<and> ledgersOk th'"
  using assms
  by (auto simp: voteOnThread_def adjustReputation_other split_beta Let_def ledgersOk_def
        oneVotePerVoter_def castVote_distinct split: option.splits)

lemma voteOnReply_ledgersOk:
  assumes "Threads d tid = Some th" "ledgersOk th"
  shows "\<exists>th'. Threads (snd (voteOnReply castObjectId now d rq p i ty)) tid = Some th' \<and> ledgersOk th'"
proof (cases "parseVoteType ty")
  case None
  with assms show ?thesis by (simp add: voteOnReply_def)
next
  case t: (Some t)
  show ?thesis
  proof (cases "castObjectId p")
    case None
    with assms t show ?thesis by (simp add: voteOnReply_def)
  next
    case c: (Some tid')
    show ?thesis
    proof (cases "Threads d tid'")
      case None
      with assms t c show ?thesis by (simp add: voteOnReply_def)
    next
      case th2: (Some th2)
      show ?thesis
      proof (cases "findAndVoteReply i (uid rq) t 0 (replies th2)")
        case (Inl e)
        with assms t c th2 show ?thesis by (simp add: voteOnReply_def)
      next
        case (Inr x)
        obtain res rs' where x: "x = (res, rs')" by (cases x)
        show ?thesis
        proof (cases res)
          case None
          with assms t c th2 Inr x show ?thesis by (simp add: voteOnReply_def)
        next
          case (Some y)
          obtain k reply' voteChange where y: "y = (k, reply', voteChange)" by (cases y)
          have v: "Threads (snd (voteOnReply castObjectId now d rq p i ty)) =
                (Threads d)(tid' \<mapsto> preSave now th2
                   (if k = 0 then th2\<lparr>replies := rs'\<rparr> else th2\<lparr>replies := rs', replies := replies th2\<rparr>))"
            using t c th2 Inr x Some y
            by (simp add: voteOnReply_def Let_def adjustReputation_other saveThread_Threads)
          show ?thesis
          proof (cases "tid' = tid")
            case False
            with v assms show ?thesis by simp
          next
            case True
            with th2 assms(1) have e: "th2 = th" by simp
            from assms(2) have "\<forall>l \<in> set (ledgers (replies th)). distinct (map vuser l)"
              by (simp add: ledgersOk_def list_all_iff oneVotePerVoter_def)
            with findAndVoteReply_ledgers [of i "uid rq" t 0 "replies th" res rs'] Inr x e
            have "\<forall>l \<in> set (ledgers rs'). distinct (map vuser l)"
              by (auto simp: castVote_distinct)
            with v True e assms(2) show ?thesis
              by (simp add: preSave_def ledgersOk_def list_all_iff oneVotePerVoter_def)
          qed
        qed
      qed
    qed
  qed
qed

text \<open>
  C6. At most one vote per voter is an invariant of every ledger: a cast on a ledger
  with at most one vote per voter leaves one with at most one vote per voter, so does
  any sequence of casts (in particular every ledger grown from the empty one has it),
  and a reply vote keeps it for the ledger of every node of the tree. Both vote
  handlers, whatever the request, keep it for the ledger of every thread and the ledgers
  of all its replies.
\<close>

theorem one_vote_per_voter_preserved:
  "(oneVotePerVoter vs \<longrightarrow> oneVotePerVoter (fst (castVote vs u t))) \<and>
   (oneVotePerVoter vs \<longrightarrow> oneVotePerVoter (castVotes vs cs)) \<and>
   oneVotePerVoter (castVotes [] cs) \<and>
   ((\<forall>l \<in> set (ledgers rs). oneVotePerVoter l) \<and> findAndVoteReply i u t k rs = Inr (res, rs') \<longrightarrow>
      (\<forall>l \<in> set (ledgers rs'). oneVotePerVoter l)) \<and>
   (Threads d tid = Some th \<and> ledgersOk th \<longrightarrow>
      (\<exists>th'. Threads (snd (voteOnThread castObjectId d rq p ty)) tid = Some th' \<and> ledgersOk th') \<and>
      (\<exists>th'. Threads (snd (voteOnReply castObjectId now d rq p i ty)) tid = Some th' \<and> ledgersOk th'))"
proof (intro conjI impI)
  show "oneVotePerVoter (castVotes [] cs)"
    using castVotes_distinct [of "[]" cs] by (simp add: oneVotePerVoter_def)
next
  assume "(\<forall>l \<in> set (ledgers rs). oneVotePerVoter l) \<and> findAndVoteReply i u t k rs = Inr (res, rs')"
  then show "\<forall>l \<in> set (ledgers rs'). oneVotePerVoter l"
    using findAndVoteReply_ledgers [of i u t k rs res rs']
    by (auto simp: oneVotePerVoter_def castVote_distinct)
next
  assume "Threads d tid = Some th \<and> ledgersOk th"
  then show "\<exists>th'. Threads (snd (voteOnThread castObjectId d rq p ty)) tid = Some th' \<and> ledgersOk th'"
    using voteOnThread_ledgersOk [of d tid th castObjectId rq p ty] by simp
next
  assume "Threads d tid = Some th \<and> ledgersOk th"
  then show "\<exists>th'. Threads (snd (voteOnReply castObjectId now d rq p i ty)) tid = Some th' \<and> ledgersOk th'"
    using voteOnReply_ledgersOk [of d tid th castObjectId now rq p i ty] by simp
qed (simp_all add: oneVotePerVoter_def castVote_distinct castVotes_distinct)

theorem one_vote_per_voter_preserved_witness:
  "oneVotePerVoter (votes sampleThread) \<and>
   oneVotePerVoter (fst (castVote (votes sampleThread) idU2 Downvote)) \<and>
   oneVotePerVoter (castVotes (votes sampleThread) [(idU2, Downvote), (idU3, Upvote), (idU2, Downvote)]) \<and>
   list_all oneVotePerVoter (ledgers [sampleA]) \<and>
   findAndVoteReply idB idU2 Downvote 0 [sampleA] =
     Inr (Some (1, votedNode idU2 Downvote sampleB, - 1),
          [Reply (r_fields sampleA) [votedNode idU2 Downvote sampleB]]) \<and>
   list_all oneVotePerVoter (ledgers [Reply (r_fields sampleA) [votedNode idU2 Downvote sampleB]]) \<and>
   Threads sampleDb idT2 = Some seededThread \<and> ledgersOk seededThread \<and>
   (\<exists>th'. Threads (snd (voteOnThread hexObjectId sampleDb \<lparr>uid = idU2, rrole = RoleUser\<rparr> idT2 ''downvote'')) idT2 = Some th' \<and>
      ledgersOk th') \<and>
   (\<exists>th'. Threads (snd (voteOnReply hexObjectId 7 sampleDb \<lparr>uid = idU2, rrole = RoleUser\<rparr> idT2 idB ''downvote'')) idT2 = Some th' \<and>
      ledgersOk th')"
proof -
  have h: "oneVotePerVoter (votes sampleThread)" "\<forall>l \<in> set (ledgers [sampleA]). oneVotePerVoter l"
          "Threads sampleDb idT2 = Some seededThread" "ledgersOk seededThread"
    by (simp_all add: sample_defs id_defs oneVotePerVoter_def ledgers_Cons ledgers_Nil ledgersOk_def)
  have e: "findAndVoteReply idB idU2 Downvote 0 [sampleA] =
     Inr (Some (1, votedNode idU2 Downvote sampleB, - 1),
          [Reply (r_fields sampleA) [votedNode idU2 Downvote sampleB]])"
    by (simp add: sample_defs id_defs findAndVoteReply_Cons castVote_Cons castVote_Nil)
  from one_vote_per_voter_preserved
         [of "votes sampleThread" idU2 Downvote "[(idU2, Downvote), (idU3, Upvote), (idU2, Downvote)]"
             "[sampleA]" idB 0 "Some (1, votedNode idU2 Downvote sampleB, - 1)"
             "[Reply (r_fields sampleA) [votedNode idU2 Downvote sampleB]]"
             sampleDb idT2 seededThread hexObjectId "\<lparr>uid = idU2, rrole = RoleUser\<rparr>" idT2
             "''downvote''" 7] h e
  show ?thesis by (simp add: list_all_iff)
qed

section \<open>Reputation over a sequence of votes\<close>

lemma castVotes_snoc: "castVotes vs (cs @ [(u, t)]) = fst (castVote (castVotes vs cs) u t)"
  by (induction vs cs rule: castVotes.induct) simp_all

lemma voteOnThreadSeq_step:
  assumes "castObjectId p = Some tid" "Threads d tid = Some th" "Users d (author th) = Some a"
  shows "Threads (snd (voteOnThread castObjectId d \<lparr>uid = u, rrole = RoleUser\<rparr> p (typeName t))) tid =
           Some (th\<lparr>votes := fst (castVote (votes th) u t)\<rparr>) \<and>
         Users (snd (voteOnThread castObjectId d \<lparr>uid = u, rrole = RoleUser\<rparr> p (typeName t))) (author th) =
           Some (a\<lparr>reputation :=
             max 0 (reputation a + (voteScore (fst (castVote (votes th) u t)) - voteScore (votes th)))\<rparr>)"
  using assms voteOnThread_thread [of castObjectId p tid d th "\<lparr>uid = u, rrole = RoleUser\<rparr>" t]
    voteOnThread_author [of castObjectId p tid d th "\<lparr>uid = u, rrole = RoleUser\<rparr>" t]
  by (simp add: castVote_score)

lemma voteOnThreadSeq_reputation:
  "castObjectId p = Some tid \<Longrightarrow> Threads d tid = Some th \<Longrightarrow> Users d (author th) = Some a \<Longrightarrow>
   \<exists>a'. Threads (voteOnThreadSeq castObjectId d p cs) tid = Some (th\<lparr>votes := castVotes (votes th) cs\<rparr>) \<and>
        Users (voteOnThreadSeq castObjectId d p cs) (author th) = Some a' \<and>
        (cs \<noteq> [] \<longrightarrow> 0 \<le> reputation a') \<and>
        reputation a + (voteScore (castVotes (votes th) cs) - voteScore (votes th)) \<le> reputation a' \<and>
        ((\<forall>k \<le> length cs.
            0 \<le> reputation a + (voteScore (castVotes (votes th) (take k cs)) - voteScore (votes th))) \<longrightarrow>
         reputation a' = reputation a + (voteScore (castVotes (votes th) cs) - voteScore (votes th)))"
proof (induction cs arbitrary: d th a)
  case Nil
  then show ?case by simp
next
  case (Cons c cs)
  obtain u t where c: "c = (u, t)" by (cases c)
  let ?d1 = "snd (voteOnThread castObjectId d \<lparr>uid = u, rrole = RoleUser\<rparr> p (typeName t))"
  let ?vs1 = "fst (castVote (votes th) u t)"
  let ?th1 = "th\<lparr>votes := ?vs1\<rparr>"
  let ?r1 = "max 0 (reputation a + (voteScore ?vs1 - voteScore (votes th)))"
  let ?a1 = "a\<lparr>reputation := ?r1\<rparr>"
  from voteOnThreadSeq_step [of castObjectId p tid d th a u t] Cons.prems
  have s: "Threads ?d1 tid = Some ?th1" "Users ?d1 (author ?th1) = Some ?a1"
    by simp_all
  from Cons.IH [of ?d1 ?th1 ?a1] Cons.prems(1) s obtain a' where
    h: "Threads (voteOnThreadSeq castObjectId ?d1 p cs) tid = Some (?th1\<lparr>votes := castVotes ?vs1 cs\<rparr>)"
       "Users (voteOnThreadSeq castObjectId ?d1 p cs) (author th) = Some a'"
       "cs \<noteq> [] \<longrightarrow> 0 \<le> reputation a'"
       "?r1 + (voteScore (castVotes ?vs1 cs) - voteScore ?vs1) \<le> reputation a'"
       "(\<forall>k \<le> length cs. 0 \<le> ?r1 + (voteScore (castVotes ?vs1 (take k cs)) - voteScore ?vs1)) \<longrightarrow>
          reputation a' = ?r1 + (voteScore (castVotes ?vs1 cs) - voteScore ?vs1)"
    by auto
  have nonneg: "0 \<le> reputation a'"
  proof (cases "cs = []")
    case True
    with h(4) show ?thesis by simp
  next
    case False
    with h(3) show ?thesis by simp
  qed
  have lower: "reputation a + (voteScore (castVotes (votes th) (c # cs)) - voteScore (votes th)) \<le> reputation a'"
    using h(4) by (simp add: c)
  have exact: "reputation a' = reputation a + (voteScore (castVotes (votes th) (c # cs)) - voteScore (votes th))"
    if p: "\<forall>k \<le> length (c # cs).
            0 \<le> reputation a + (voteScore (castVotes (votes th) (take k (c # cs))) - voteScore (votes th))"
  proof -
    from p [rule_format, of 1] have r1: "?r1 = reputation a + (voteScore ?vs1 - voteScore (votes th))"
      by (simp add: c)
    have "\<forall>k \<le> length cs. 0 \<le> ?r1 + (voteScore (castVotes ?vs1 (take k cs)) - voteScore ?vs1)"
    proof (intro allI impI)
      fix k assume "k \<le> length cs"
      with p [rule_format, of "Suc k"] r1
      show "0 \<le> ?r1 + (voteScore (castVotes ?vs1 (take k cs)) - voteScore ?vs1)"
        by (simp add: c)
    qed
    with h(5) r1 show ?thesis by (simp add: c)
  qed
  from h(1,2) nonneg lower exact show ?case
    by (simp add: c)
qed

text \<open>
  C2, as amended. Take a thread with an empty ledger whose author has reputation
  \<open>base \<ge> 0\<close>, and any sequence of vote requests on it (each naming the thread by an
  id that casts to its \<^verbatim>\<open>_id\<close>); let \<open>N\<close> and \<open>M\<close> be the numbers
  of upvotes and downvotes in the ledger afterwards (one vote per voter). The author's
  reputation is then never negative and at least \<open>max 0 (base + N - M)\<close>; it equals
  \<open>max 0 (base + N - M)\<close> whenever \<open>base\<close> plus the score stayed non-negative after every
  request of the sequence, that is whenever the floor never cut anything off. There is
  no ceiling.
\<close>

theorem reputation_after_casts:
  "castObjectId p = Some tid \<and> Threads d tid = Some th \<and> votes th = [] \<and>
   Users d (author th) = Some a \<and> 0 \<le> reputation a \<longrightarrow>
     (\<exists>th' a'.
        Threads (voteOnThreadSeq castObjectId d p cs) tid = Some th' \<and>
        Users (voteOnThreadSeq castObjectId d p cs) (author th) = Some a' \<and>
        votes th' = castVotes [] cs \<and> oneVotePerVoter (votes th') \<and>
        0 \<le> reputation a' \<and>
        max 0 (reputation a + int (upvotes (votes th')) - int (downvotes (votes th'))) \<le> reputation a' \<and>
        ((\<forall>k \<le> length cs. 0 \<le> reputation a + voteScore (castVotes [] (take k cs))) \<longrightarrow>
           reputation a' = max 0 (reputation a + int (upvotes (votes th')) - int (downvotes (votes th')))))"
proof (intro impI)
  assume a: "castObjectId p = Some tid \<and> Threads d tid = Some th \<and> votes th = [] \<and>
   Users d (author th) = Some a \<and> 0 \<le> reputation a"
  with voteOnThreadSeq_reputation [of castObjectId p tid d th a cs] obtain a' where
    h: "Threads (voteOnThreadSeq castObjectId d p cs) tid = Some (th\<lparr>votes := castVotes [] cs\<rparr>)"
       "Users (voteOnThreadSeq castObjectId d p cs) (author th) = Some a'"
       "cs \<noteq> [] \<longrightarrow> 0 \<le> reputation a'"
       "reputation a + voteScore (castVotes [] cs) \<le> reputation a'"
       "(\<forall>k \<le> length cs. 0 \<le> reputation a + voteScore (castVotes [] (take k cs))) \<longrightarrow>
          reputation a' = reputation a + voteScore (castVotes [] cs)"
    by (auto simp: voteScore_Nil)
  have nonneg: "0 \<le> reputation a'"
  proof (cases "cs = []")
    case True
    with h(4) a show ?thesis by (simp add: voteScore_Nil)
  next
    case False
    with h(3) show ?thesis by simp
  qed
  have one: "oneVotePerVoter (castVotes [] cs)"
    using castVotes_distinct [of "[]" cs] by (simp add: oneVotePerVoter_def)
  have exact: "reputation a' = max 0 (reputation a + int (upvotes (castVotes [] cs)) - int (downvotes (castVotes [] cs)))"
    if p: "\<forall>k \<le> length cs. 0 \<le> reputation a + voteScore (castVotes [] (take k cs))"
  proof -
    from p [rule_format, of "length cs"] have "0 \<le> reputation a + voteScore (castVotes [] cs)" by simp
    with h(5) p show ?thesis by (simp add: voteScore_def)
  qed
  from h(1,2) nonneg h(4) one exact
  show "\<exists>th' a'.
        Threads (voteOnThreadSeq castObjectId d p cs) tid = Some th' \<and>
        Users (voteOnThreadSeq castObjectId d p cs) (author th) = Some a' \<and>
        votes th' = castVotes [] cs \<and> oneVotePerVoter (votes th') \<and>
        0 \<le> reputation a' \<and>
        max 0 (reputation a + int (upvotes (votes th')) - int (downvotes (votes th'))) \<le> reputation a' \<and>
        ((\<forall>k \<le> length cs. 0 \<le> reputation a + voteScore (castVotes [] (take k cs))) \<longrightarrow>
           reputation a' = max 0 (reputation a + int (upvotes (votes th')) - int (downvotes (votes th'))))"
    by (simp add: voteScore_def)
qed


lemma sample_users_distinct:
  "idU1 \<noteq> idU2" "idU1 \<noteq> idU3" "idU2 \<noteq> idU3" "idU2 \<noteq> idU1" "idU3 \<noteq> idU1" "idU3 \<noteq> idU2"
  "idAuthor \<noteq> idU1" "idAuthor \<noteq> idU2" "idAuthor \<noteq> idU3"
  "idU1 \<noteq> idAuthor" "idU2 \<noteq> idAuthor" "idU3 \<noteq> idAuthor"
  by (simp_all add: id_defs)

lemma freshDb_fields:
  "Threads (freshDb b) idT1 = Some (sampleThread\<lparr>votes := []\<rparr>)"
  "votes (sampleThread\<lparr>votes := []\<rparr>) = []"
  "author (sampleThread\<lparr>votes := []\<rparr>) = idAuthor"
  "Users (freshDb b) idAuthor = Some \<lparr>reputation = b, urole = RoleUser\<rparr>"
  by (simp_all add: freshDb_def sample_defs)

lemma castVotes_samples:
  "castVotes [] [(idU1, Downvote), (idU2, Upvote)] =
     [\<lparr>vuser = idU1, vtype = Downvote\<rparr>, \<lparr>vuser = idU2, vtype = Upvote\<rparr>]"
  "castVotes [] [(idU1, Upvote), (idU2, Downvote), (idU3, Downvote)] =
     [\<lparr>vuser = idU1, vtype = Upvote\<rparr>, \<lparr>vuser = idU2, vtype = Downvote\<rparr>,
      \<lparr>vuser = idU3, vtype = Downvote\<rparr>]"
  by (simp_all add: castVote_Cons castVote_Nil id_defs)

text \<open>
  C2 as stated fails because the floor is applied after every request, not to the net
  effect: the author has reputation 0, \<open>u1\<close> downvotes (reputation stays 0) and \<open>u2\<close>
  upvotes (reputation 1). The net effect is one upvote and one downvote, for which the
  claim gives \<open>max 0 (0 + 1 - 1) = 0\<close>.
\<close>

theorem reputation_after_casts_counterexample:
  "Users (freshDb 0) idAuthor = Some \<lparr>reputation = 0, urole = RoleUser\<rparr> \<and>
   map_option votes (Threads (freshDb 0) idT1) = Some [] \<and>
   map_option votes (Threads (voteOnThreadSeq hexObjectId (freshDb 0) idT1 [(idU1, Downvote), (idU2, Upvote)]) idT1) =
     Some [\<lparr>vuser = idU1, vtype = Downvote\<rparr>, \<lparr>vuser = idU2, vtype = Upvote\<rparr>] \<and>
   Users (voteOnThreadSeq hexObjectId (freshDb 0) idT1 [(idU1, Downvote), (idU2, Upvote)]) idAuthor =
     Some \<lparr>reputation = 1, urole = RoleUser\<rparr> \<and>
   max 0 (0 + 1 - 1) = (0 :: int)"
proof -
  have 1: "snd (voteOnThread hexObjectId (freshDb 0) \<lparr>uid = idU1, rrole = RoleUser\<rparr> idT1 (typeName Downvote)) =
             sampleDb\<lparr>Threads := [idT1 \<mapsto> sampleThread\<lparr>votes := [\<lparr>vuser = idU1, vtype = Downvote\<rparr>]\<rparr>],
                      Users := [idAuthor \<mapsto> \<lparr>reputation = 0, urole = RoleUser\<rparr>]\<rparr>"
    by (simp add: voteOnThread_found [of hexObjectId idT1, OF sample_casts(1) freshDb_fields(1)] freshDb_fields castVote_Nil adjustReputation_def)
       (simp add: freshDb_def)
  have t: "Threads (sampleDb\<lparr>Threads := [idT1 \<mapsto> th], Users := us\<rparr>) idT1 = Some th" for th us
    by simp
  have 2: "snd (voteOnThread hexObjectId
             (sampleDb\<lparr>Threads := [idT1 \<mapsto> sampleThread\<lparr>votes := [\<lparr>vuser = idU1, vtype = Downvote\<rparr>]\<rparr>],
                      Users := [idAuthor \<mapsto> \<lparr>reputation = 0, urole = RoleUser\<rparr>]\<rparr>)
             \<lparr>uid = idU2, rrole = RoleUser\<rparr> idT1 (typeName Upvote)) =
           sampleDb\<lparr>Threads := [idT1 \<mapsto> sampleThread\<lparr>votes :=
                        [\<lparr>vuser = idU1, vtype = Downvote\<rparr>, \<lparr>vuser = idU2, vtype = Upvote\<rparr>]\<rparr>],
                    Users := [idAuthor \<mapsto> \<lparr>reputation = 1, urole = RoleUser\<rparr>]\<rparr>"
    by (simp add: voteOnThread_found [of hexObjectId idT1, OF sample_casts(1) t] castVote_Cons castVote_Nil adjustReputation_def sample_users_distinct)
       (simp add: sample_defs)
  show ?thesis
    by (simp add: 1 2 freshDb_fields)
qed

theorem reputation_after_casts_witness:
  "Threads (freshDb 1) idT1 = Some (sampleThread\<lparr>votes := []\<rparr>) \<and>
   Users (freshDb 1) idAuthor = Some \<lparr>reputation = 1, urole = RoleUser\<rparr> \<and>
   (\<exists>th' a'.
      Threads (voteOnThreadSeq hexObjectId (freshDb 1) idT1 [(idU1, Upvote), (idU2, Downvote), (idU3, Downvote)]) idT1 = Some th' \<and>
      Users (voteOnThreadSeq hexObjectId (freshDb 1) idT1 [(idU1, Upvote), (idU2, Downvote), (idU3, Downvote)]) idAuthor = Some a' \<and>
      upvotes (votes th') = 1 \<and> downvotes (votes th') = 2 \<and> reputation a' = 0)"
proof -
  let ?cs = "[(idU1, Upvote), (idU2, Downvote), (idU3, Downvote)]"
  have p: "\<forall>k \<le> length ?cs. 0 \<le> reputation \<lparr>reputation = 1, urole = RoleUser\<rparr> + voteScore (castVotes [] (take k ?cs))"
  proof (intro allI impI)
    fix k assume "k \<le> length ?cs"
    then have "k = 0 \<or> k = 1 \<or> k = 2 \<or> k = 3" by auto
    then show "0 \<le> reputation \<lparr>reputation = 1, urole = RoleUser\<rparr> + voteScore (castVotes [] (take k ?cs))"
      by (elim disjE) (simp_all add: castVote_Cons castVote_Nil voteScore_Cons voteScore_Nil numeral_2_eq_2 numeral_3_eq_3 id_defs)
  qed
  from reputation_after_casts
         [of hexObjectId idT1 idT1 "freshDb 1" "sampleThread\<lparr>votes := []\<rparr>" "\<lparr>reputation = 1, urole = RoleUser\<rparr>" ?cs]
       p freshDb_fields sample_casts(1)
  obtain th' a' where
    h: "Threads (voteOnThreadSeq hexObjectId (freshDb 1) idT1 ?cs) idT1 = Some th'"
       "Users (voteOnThreadSeq hexObjectId (freshDb 1) idT1 ?cs) idAuthor = Some a'"
       "votes th' = castVotes [] ?cs"
       "reputation a' = max 0 (1 + int (upvotes (votes th')) - int (downvotes (votes th')))"
    by auto
  from h(3) have "votes th' =
      [\<lparr>vuser = idU1, vtype = Upvote\<rparr>, \<lparr>vuser = idU2, vtype = Downvote\<rparr>,
       \<lparr>vuser = idU3, vtype = Downvote\<rparr>]"
    by (simp only: castVotes_samples)
  then have v: "upvotes (votes th') = 1" "downvotes (votes th') = 2"
    by (simp_all add: upvotes_def downvotes_def)
  with h(4) have "reputation a' = 0" by simp
  with h(1,2) v freshDb_fields show ?thesis by simp
qed

section \<open>Tags: usage counters and merging\<close>

lemma saveTag_new:
  "tag_id t \<notin> set (map tag_id coll) \<Longrightarrow> saveTag t coll = coll @ [t]"
  by (simp add: saveTag_def)

lemma saveTag_replace:
  "tag_id t \<in> set (map tag_id coll) \<Longrightarrow>
   saveTag t coll = map (\<lambda>x. if tag_id x = tag_id t then t else x) coll"
  by (simp add: saveTag_def)

lemma map_replace_absent:
  "i \<notin> set (map tag_id coll) \<Longrightarrow> map (\<lambda>x. if tag_id x = i then t else x) coll = coll"
  by (induction coll) auto

lemma find_replaced:
  "distinct (map tag_id coll) \<Longrightarrow> find (\<lambda>x. tag_name x = n) coll = Some t \<Longrightarrow>
   tag_name t' = n \<Longrightarrow>
   find (\<lambda>x. tag_name x = n) (map (\<lambda>x. if tag_id x = tag_id t then t' else x) coll) = Some t'"
proof (induction coll)
  case Nil
  then show ?case by simp
next
  case (Cons x coll)
  show ?case
  proof (cases "tag_name x = n")
    case True
    with Cons.prems show ?thesis by simp
  next
    case False
    with Cons.prems have f: "find (\<lambda>x. tag_name x = n) coll = Some t" by simp
    then have "t \<in> set coll" by (auto simp: find_Some_iff)
    with Cons.prems(1) have "tag_id x \<noteq> tag_id t" by auto
    with Cons.IH [OF _ f Cons.prems(3)] Cons.prems(1) False show ?thesis by simp
  qed
qed

lemma find_append_last:
  "find P xs = None \<Longrightarrow> P t \<Longrightarrow> find P (xs @ [t]) = Some t"
  by (induction xs) (auto split: if_splits)

lemma find_replaced_other:
  "distinct (map tag_id coll) \<Longrightarrow> t \<in> set coll \<Longrightarrow> tag_name t \<noteq> n \<Longrightarrow> tag_name t' \<noteq> n \<Longrightarrow>
   find (\<lambda>x. tag_name x = n) (map (\<lambda>x. if tag_id x = tag_id t then t' else x) coll) =
     find (\<lambda>x. tag_name x = n) coll"
proof (induction coll)
  case Nil
  show ?case by simp
next
  case (Cons x coll)
  show ?case
  proof (cases "x = t")
    case True
    with Cons.prems have "tag_id t \<notin> set (map tag_id coll)" by simp
    then have "map (\<lambda>x. if tag_id x = tag_id t then t' else x) coll = coll"
      by (rule map_replace_absent)
    with True Cons.prems show ?thesis by simp
  next
    case False
    with Cons.prems have m: "t \<in> set coll" by simp
    with Cons.prems(1) have "tag_id x \<noteq> tag_id t" by auto
    with Cons.IH [OF _ m Cons.prems(3,4)] Cons.prems(1) show ?thesis by simp
  qed
qed

lemma tagStep:
  assumes dist: "distinct (map tag_id coll)" and fresh: "newTagId coll \<notin> set (map tag_id coll)"
    and valid: "validTagName (tagKey nm)"
  shows "\<exists>coll2 i.
           (\<forall>rest ids. processTags newTagId (nm # rest) coll ids = processTags newTagId rest coll2 (ids @ [i])) \<and>
           distinct (map tag_id coll2) \<and>
           idOf (tagKey nm) coll2 = Some i \<and>
           (\<forall>n j. idOf n coll = Some j \<longrightarrow> idOf n coll2 = Some j) \<and>
           (\<forall>n. usageOf n coll2 = usageOf n coll + (if n = tagKey nm then 1 else 0))"
proof (cases "find (\<lambda>t. tag_name t = tagKey nm) coll")
  case None
  let ?l = "tagKey nm"
  let ?t = "\<lambda>k. \<lparr>tag_id = newTagId coll, tag_name = ?l, usageCount = k\<rparr>"
  let ?c2 = "coll @ [?t 1]"
  have s: "saveTag (?t 1) (saveTag (?t 0) coll) = ?c2"
    using fresh by (simp add: saveTag_def map_replace_absent)
  have 1: "processTags newTagId (nm # rest) coll ids = processTags newTagId rest ?c2 (ids @ [newTagId coll])"
    for rest ids
    using None s valid by (simp add: Let_def tagKey_def)
  have 2: "distinct (map tag_id ?c2)" using dist fresh by simp
  have 3: "idOf ?l ?c2 = Some (newTagId coll)"
    using None by (simp add: idOf_def find_append_last)
  have 4: "idOf n ?c2 = Some j" if "idOf n coll = Some j" for n j
    using that by (auto simp: idOf_def find_append_first)
  have 5: "usageOf n ?c2 = usageOf n coll + (if n = ?l then 1 else 0)" for n
    using None by (auto simp: usageOf_def find_append_first split: option.splits)
  from 1 2 3 4 5 show ?thesis by blast
next
  case (Some t)
  let ?l = "tagKey nm"
  let ?t1 = "t\<lparr>usageCount := usageCount t + 1\<rparr>"
  let ?c2 = "map (\<lambda>x. if tag_id x = tag_id t then ?t1 else x) coll"
  from Some have m: "t \<in> set coll" and n: "tag_name t = ?l"
    by (auto simp: find_Some_iff)
  from m have s: "saveTag ?t1 coll = ?c2" by (simp add: saveTag_def)
  have 1: "processTags newTagId (nm # rest) coll ids = processTags newTagId rest ?c2 (ids @ [tag_id t])"
    for rest ids
    using Some s by (simp add: Let_def tagKey_def)
  have "map tag_id ?c2 = map tag_id coll" by (simp add: comp_def cong: map_cong)
  with dist have 2: "distinct (map tag_id ?c2)" by (simp only:)
  have f: "find (\<lambda>x. tag_name x = ?l) ?c2 = Some ?t1"
    using find_replaced [OF dist Some, of ?t1] n by simp
  then have 3: "idOf ?l ?c2 = Some (tag_id t)" by (simp add: idOf_def)
  have o: "find (\<lambda>x. tag_name x = k) ?c2 = find (\<lambda>x. tag_name x = k) coll" if "k \<noteq> ?l" for k
    using find_replaced_other [OF dist m, of k ?t1] n that by simp
  have 4: "idOf k ?c2 = Some j" if "idOf k coll = Some j" for k j
  proof (cases "k = ?l")
    case True
    with that Some 3 show ?thesis by (simp add: idOf_def)
  next
    case False
    with that o show ?thesis by (simp add: idOf_def)
  qed
  have 5: "usageOf k ?c2 = usageOf k coll + (if k = ?l then 1 else 0)" for k
  proof (cases "k = ?l")
    case True
    with f Some show ?thesis by (simp add: usageOf_def)
  next
    case False
    with o show ?thesis by (simp add: usageOf_def)
  qed
  from 1 2 3 4 5 show ?thesis by blast
qed

lemma processTags_counts:
  assumes fresh: "\<forall>c. newTagId c \<notin> set (map tag_id c)"
  shows "distinct (map tag_id coll) \<Longrightarrow> \<forall>nm \<in> set ns. validTagName (tagKey nm) \<Longrightarrow>
   \<exists>coll' ids'. processTags newTagId ns coll ids = (coll', Some (ids @ ids')) \<and>
      distinct (map tag_id coll') \<and>
      map Some ids' = map (\<lambda>nm. idOf (tagKey nm) coll') ns \<and>
      (\<forall>n j. idOf n coll = Some j \<longrightarrow> idOf n coll' = Some j) \<and>
      (\<forall>n. usageOf n coll' = usageOf n coll + int (length (filter (\<lambda>nm. tagKey nm = n) ns)))"
proof (induction ns arbitrary: coll ids)
  case Nil
  then show ?case by simp
next
  case (Cons nm ns)
  have fr: "newTagId coll \<notin> set (map tag_id coll)" using fresh by simp
  from Cons.prems(2) have v: "validTagName (tagKey nm)" and vs: "\<forall>nm \<in> set ns. validTagName (tagKey nm)"
    by simp_all
  from tagStep [where coll = coll and newTagId = newTagId and nm = nm, OF Cons.prems(1) fr v]
  obtain coll2 i where
    s: "\<And>rest ids. processTags newTagId (nm # rest) coll ids = processTags newTagId rest coll2 (ids @ [i])"
       "distinct (map tag_id coll2)" "idOf (tagKey nm) coll2 = Some i"
       "\<And>n j. idOf n coll = Some j \<Longrightarrow> idOf n coll2 = Some j"
       "\<And>n. usageOf n coll2 = usageOf n coll + (if n = tagKey nm then 1 else 0)"
    by blast
  from Cons.IH [OF s(2) vs, of "ids @ [i]"] obtain coll' ids' where
    h: "processTags newTagId ns coll2 (ids @ [i]) = (coll', Some ((ids @ [i]) @ ids'))"
       "distinct (map tag_id coll')"
       "map Some ids' = map (\<lambda>nm. idOf (tagKey nm) coll') ns"
       "\<And>n j. idOf n coll2 = Some j \<Longrightarrow> idOf n coll' = Some j"
       "\<And>n. usageOf n coll' = usageOf n coll2 + int (length (filter (\<lambda>nm. tagKey nm = n) ns))"
    by blast
  have 1: "processTags newTagId (nm # ns) coll ids = (coll', Some (ids @ (i # ids')))"
    using s(1) h(1) by simp
  have 2: "map Some (i # ids') = map (\<lambda>nm. idOf (tagKey nm) coll') (nm # ns)"
    using h(3) h(4) [OF s(3)] by simp
  have 3: "idOf n coll' = Some j" if "idOf n coll = Some j" for n j
    using h(4) [OF s(4) [OF that]] .
  have 4: "usageOf n coll' = usageOf n coll + int (length (filter (\<lambda>nm. tagKey nm = n) (nm # ns)))" for n
    using h(5) [of n] s(5) [of n] by auto
  from 1 h(2) 2 3 4 show ?case by blast
qed

text \<open>
  C8, as amended. In a thread-create request whose tag names are valid after
  normalization (lower case and trimmed: not empty, at most 30 characters), every
  submitted name resolves to the tag whose name is its normalized form (the existing
  one, or one new document), and the usage counter of every tag grows by the number of
  submitted names that normalize to its name. So two names that are equal after
  normalization resolve to a single tag with the normalized name, the thread holds that
  tag's id twice, and the counter is incremented twice for the one thread.
\<close>

theorem usage_counter_counts_every_name:
  "castObjectId cat = Some catId \<and> Categories d catId = Some cd \<and>
   distinct (map tag_id (Tags d)) \<and> (\<forall>coll. newTagId coll \<notin> set (map tag_id coll)) \<and>
   (\<forall>nm \<in> set ns. validTagName (tagKey nm)) \<and> validTitle (trim ttl) \<and> validContent c \<longrightarrow>
     (\<exists>th d'.
        createThread castObjectId newTagId newThreadId now d rq ttl c cat (Some ns) = (Inr th, d') \<and>
        Threads d' newThreadId = Some th \<and>
        map Some (tags th) = map (\<lambda>nm. idOf (tagKey nm) (Tags d')) ns \<and>
        (\<forall>n. usageOf n (Tags d') =
               usageOf n (Tags d) + int (length (filter (\<lambda>nm. tagKey nm = n) ns))))"
proof (intro impI)
  assume a: "castObjectId cat = Some catId \<and> Categories d catId = Some cd \<and>
   distinct (map tag_id (Tags d)) \<and> (\<forall>coll. newTagId coll \<notin> set (map tag_id coll)) \<and>
   (\<forall>nm \<in> set ns. validTagName (tagKey nm)) \<and> validTitle (trim ttl) \<and> validContent c"
  then have fresh: "\<forall>c. newTagId c \<notin> set (map tag_id c)" by simp
  from processTags_counts [OF fresh, of "Tags d" ns "[]"] a obtain coll' ids' where
    h: "processTags newTagId ns (Tags d) [] = (coll', Some ids')"
       "map Some ids' = map (\<lambda>nm. idOf (tagKey nm) coll') ns"
       "\<And>n. usageOf n coll' = usageOf n (Tags d) + int (length (filter (\<lambda>nm. tagKey nm = n) ns))"
    by auto
  show "\<exists>th d'.
        createThread castObjectId newTagId newThreadId now d rq ttl c cat (Some ns) = (Inr th, d') \<and>
        Threads d' newThreadId = Some th \<and>
        map Some (tags th) = map (\<lambda>nm. idOf (tagKey nm) (Tags d')) ns \<and>
        (\<forall>n. usageOf n (Tags d') =
               usageOf n (Tags d) + int (length (filter (\<lambda>nm. tagKey nm = n) ns)))"
  proof (cases "ns = []")
    case True
    with a show ?thesis by (simp add: createThread_def Let_def)
  next
    case False
    with a h show ?thesis by (simp add: createThread_def Let_def del: processTags.simps)
  qed
qed

lemma sample_keys:
  "tagKey ''React'' = ''react''" "tagKey ''react'' = ''react''" "tagKey '' React '' = ''react''"
  "tagKey [] = []" "trim ''Hooks in React'' = ''Hooks in React''" "trim ''     '' = []"
  by code_simp+

lemma sample_valid:
  "validTagName ''react''" "\<not> validTagName []" "validTitle ''Hooks in React''"
  "validContent ''How do hooks work?''"
  by (simp_all add: validTagName_def validTitle_def validContent_def)

lemma tagDb_fields:
  "Tags tagDb = [\<lparr>tag_id = idTagJs, tag_name = ''reactjs'', usageCount = 1\<rparr>]"
  "Categories tagDb idCat = Some \<lparr>cat_name = ''General'', threadCount = 2\<rparr>"
  "idTagNew \<noteq> idTagJs" "idTagJs \<noteq> idTagNew"
  by (simp_all add: tagDb_def sample_defs id_defs)

text \<open>
  C8 as stated fails on its own example: with the names \<open>React\<close> and \<open>react\<close> the new
  tag \<open>react\<close> ends with usage count 2 for the one thread, which holds its id twice.
\<close>

theorem duplicate_tag_names_counterexample:
  "tagKey ''React'' = tagKey ''react'' \<and>
   Tags tagDb = [\<lparr>tag_id = idTagJs, tag_name = ''reactjs'', usageCount = 1\<rparr>] \<and>
   map_sum id tags
     (fst (createThread hexObjectId (\<lambda>coll. idTagNew) idT9 7 tagDb \<lparr>uid = idU1, rrole = RoleUser\<rparr>
             ''Hooks in React'' ''How do hooks work?'' idCat (Some [''React'', ''react''])))
     = Inr [idTagNew, idTagNew] \<and>
   Tags (snd (createThread hexObjectId (\<lambda>coll. idTagNew) idT9 7 tagDb \<lparr>uid = idU1, rrole = RoleUser\<rparr>
             ''Hooks in React'' ''How do hooks work?'' idCat (Some [''React'', ''react''])))
     = [\<lparr>tag_id = idTagJs, tag_name = ''reactjs'', usageCount = 1\<rparr>,
        \<lparr>tag_id = idTagNew, tag_name = ''react'', usageCount = 2\<rparr>]"
  by (simp add: sample_keys [unfolded tagKey_def] tagKey_def sample_valid sample_casts tagDb_fields
        createThread_def saveTag_def Let_def)

text \<open>
  A name that is empty after normalization is refused by the first \<^verbatim>\<open>save()\<close> of the new
  tag, and so is a title of blanks by the \<^verbatim>\<open>save()\<close> of the thread: the request is
  answered with 500 and no thread is created. In the second case the tag loop has already
  run, and the tag it created stays.
\<close>

lemma createThread_refused:
  "createThread hexObjectId (\<lambda>coll. idTagNew) idT9 7 tagDb \<lparr>uid = idU1, rrole = RoleUser\<rparr>
     ''Hooks in React'' ''How do hooks work?'' idCat (Some [[]]) = (Inl ServerError, tagDb)"
  "createThread hexObjectId (\<lambda>coll. idTagNew) idT9 7 tagDb \<lparr>uid = idU1, rrole = RoleUser\<rparr>
     ''     '' ''How do hooks work?'' idCat (Some [''React'']) =
     (Inl ServerError,
      tagDb\<lparr>Tags := [\<lparr>tag_id = idTagJs, tag_name = ''reactjs'', usageCount = 1\<rparr>,
                      \<lparr>tag_id = idTagNew, tag_name = ''react'', usageCount = 1\<rparr>]\<rparr>)"
  by (simp_all add: sample_keys [unfolded tagKey_def] sample_valid sample_casts tagDb_fields
        createThread_def saveTag_def Let_def validTitle_def)

lemma sampleNewId_fresh: "sampleNewId coll \<notin> set (map tag_id coll)"
proof
  assume "sampleNewId coll \<in> set (map tag_id coll)"
  then obtain t where t: "t \<in> set coll" "tag_id t = sampleNewId coll" by auto
  from t(1) have "length (tag_id t) \<in> set (map (\<lambda>t. length (tag_id t)) coll)" by simp
  then have "length (tag_id t) \<le> sum_list (map (\<lambda>t. length (tag_id t)) coll)"
    using member_le_sum_list [of "length (tag_id t)" "map (\<lambda>t. length (tag_id t)) coll"] by simp
  with t(2) show False by (simp add: sampleNewId_def)
qed

theorem usage_counter_counts_every_name_witness:
  "hexObjectId idCat = Some idCat \<and>
   Categories tagDb idCat = Some \<lparr>cat_name = ''General'', threadCount = 2\<rparr> \<and>
   distinct (map tag_id (Tags tagDb)) \<and>
   sampleNewId (Tags tagDb) \<notin> set (map tag_id (Tags tagDb)) \<and>
   validTagName (tagKey ''React'') \<and> validTagName (tagKey '' React '') \<and>
   validTitle (trim ''Hooks in React'') \<and> validContent ''How do hooks work?'' \<and>
   usageOf ''react'' (Tags tagDb) = 0 \<and>
   (\<exists>th d'.
      createThread hexObjectId sampleNewId idT9 7 tagDb \<lparr>uid = idU1, rrole = RoleUser\<rparr>
        ''Hooks in React'' ''How do hooks work?'' idCat (Some [''React'', '' React '']) = (Inr th, d') \<and>
      map Some (tags th) = [idOf ''react'' (Tags d'), idOf ''react'' (Tags d')] \<and>
      usageOf ''react'' (Tags d') = 2)"
proof -
  have h: "Categories tagDb idCat = Some \<lparr>cat_name = ''General'', threadCount = 2\<rparr>"
          "distinct (map tag_id (Tags tagDb))" "usageOf ''react'' (Tags tagDb) = 0"
          "\<forall>nm \<in> set [''React'', '' React '']. validTagName (tagKey nm)"
          "validTitle (trim ''Hooks in React'')" "validContent ''How do hooks work?''"
    by (simp_all add: tagDb_fields usageOf_def sample_keys sample_valid)
  from usage_counter_counts_every_name
         [of hexObjectId idCat idCat tagDb "\<lparr>cat_name = ''General'', threadCount = 2\<rparr>" sampleNewId
             "[''React'', '' React '']" "''Hooks in React''" "''How do hooks work?''" idT9 7
             "\<lparr>uid = idU1, rrole = RoleUser\<rparr>"]
       h sample_casts(4) sampleNewId_fresh
  obtain th d' where
    r: "createThread hexObjectId sampleNewId idT9 7 tagDb \<lparr>uid = idU1, rrole = RoleUser\<rparr>
          ''Hooks in React'' ''How do hooks work?'' idCat (Some [''React'', '' React '']) = (Inr th, d')"
       "map Some (tags th) = map (\<lambda>nm. idOf (tagKey nm) (Tags d')) [''React'', '' React '']"
       "\<forall>n. usageOf n (Tags d') =
             usageOf n (Tags tagDb) + int (length (filter (\<lambda>nm. tagKey nm = n) [''React'', '' React '']))"
    by blast
  from r(2) have 1: "map Some (tags th) = [idOf ''react'' (Tags d'), idOf ''react'' (Tags d')]"
    by (simp add: sample_keys)
  from r(3) [rule_format, of "''react''"] h(3) have 2: "usageOf ''react'' (Tags d') = 2"
    by (simp add: sample_keys)
  from r(1) 1 2 have "\<exists>th d'.
      createThread hexObjectId sampleNewId idT9 7 tagDb \<lparr>uid = idU1, rrole = RoleUser\<rparr>
        ''Hooks in React'' ''How do hooks work?'' idCat (Some [''React'', '' React '']) = (Inr th, d') \<and>
      map Some (tags th) = [idOf ''react'' (Tags d'), idOf ''react'' (Tags d')] \<and>
      usageOf ''react'' (Tags d') = 2"
    by (intro exI conjI)
  with h(1,2,3,5,6) sampleNewId_fresh [of "Tags tagDb"] sample_casts(4) sample_keys sample_valid
  show ?thesis by simp
qed

lemma setFirst_single:
  "count_list xs s \<le> 1 \<Longrightarrow>
   (case findIndex (\<lambda>x. x = s) xs of None \<Rightarrow> xs | Some i \<Rightarrow> xs[i := t]) =
     map (\<lambda>x. if x = s then t else x) xs"
proof (induction xs)
  case Nil
  show ?case by simp
next
  case (Cons x xs)
  show ?case
  proof (cases "x = s")
    case True
    with Cons.prems have "s \<notin> set xs" by (simp add: count_list_0_iff)
    then have "map (\<lambda>x. if x = s then t else x) xs = xs" by (induction xs) auto
    with True show ?thesis by simp
  next
    case False
    with Cons.prems have "count_list xs s \<le> 1" by simp
    from Cons.IH [OF this] False show ?thesis
      by (simp split: option.splits)
  qed
qed

lemma setFirstTag_single:
  "count_list (tags th) s \<le> 1 \<Longrightarrow>
   tags (setFirstTag s t th) = map (\<lambda>x. if x = s then t else x) (tags th)"
  using setFirst_single [of "tags th" s t]
  by (simp add: setFirstTag_def split: option.splits)

lemma find_deleteTagById:
  "distinct (map tag_id coll) \<Longrightarrow> find (\<lambda>x. tag_id x = i) (deleteTagById i coll) = None"
proof (induction coll)
  case Nil
  show ?case by simp
next
  case (Cons a coll)
  show ?case
  proof (cases "tag_id a = i")
    case True
    with Cons.prems have "i \<notin> tag_id ` set coll" by simp
    then have "find (\<lambda>x. tag_id x = i) coll = None"
      by (auto simp: find_None_iff)
    with True show ?thesis by simp
  next
    case False
    with Cons show ?thesis by simp
  qed
qed

lemma find_deleteTagById_other:
  "j \<noteq> i \<Longrightarrow> find (\<lambda>x. tag_id x = j) (deleteTagById i coll) = find (\<lambda>x. tag_id x = j) coll"
  by (induction coll) auto

lemma find_saved:
  "find (\<lambda>x. tag_id x = i) coll = Some old \<Longrightarrow> tag_id t = i \<Longrightarrow>
   find (\<lambda>x. tag_id x = i) (saveTag t coll) = Some t"
proof -
  assume f: "find (\<lambda>x. tag_id x = i) coll = Some old" and t: "tag_id t = i"
  then have "old \<in> set coll" "tag_id old = i" by (auto simp: find_Some_iff)
  then have "i \<in> set (map tag_id coll)" by force
  with t have "saveTag t coll = map (\<lambda>x. if tag_id x = i then t else x) coll"
    by (simp add: saveTag_def)
  moreover from f t have "find (\<lambda>x. tag_id x = i) (map (\<lambda>x. if tag_id x = i then t else x) coll) = Some t"
    by (induction coll) (auto split: if_splits)
  ultimately show ?thesis by simp
qed

lemma saveTag_ids:
  "tag_id t \<in> set (map tag_id coll) \<Longrightarrow> map tag_id (saveTag t coll) = map tag_id coll"
  by (simp add: saveTag_def comp_def cong: map_cong)

lemma mergeTags_single_references:
  assumes cs: "castObjectId p = Some s" and ct: "castObjectId q = Some t"
    and S: "findTagById (Tags d) s = Some S" and T: "findTagById (Tags d) t = Some T"
    and st: "s \<noteq> t" and q: "q \<noteq> []" and dist: "distinct (map tag_id (Tags d))"
  shows "\<exists>d'. mergeTags castObjectId d p (Some q) =
                 (Inr (T\<lparr>usageCount := usageCount T + usageCount S\<rparr>), d') \<and>
           findTagById (Tags d') s = None \<and>
           findTagById (Tags d') t = Some (T\<lparr>usageCount := usageCount T + usageCount S\<rparr>) \<and>
           (\<forall>k th. Threads d k = Some th \<longrightarrow>
              (\<exists>th'. Threads d' k = Some th' \<and>
                 (count_list (tags th) s \<le> 1 \<longrightarrow>
                    tags th' = map (\<lambda>x. if x = s then t else x) (tags th) \<and> s \<notin> set (tags th'))))"
proof -
  let ?T' = "T\<lparr>usageCount := usageCount T + usageCount S\<rparr>"
  let ?d' = "d\<lparr>Threads := updateManyTags s t (Threads d),
               Tags := deleteTagById s (saveTag ?T' (Tags d))\<rparr>"
  from S T have ids: "tag_id S = s" "tag_id T = t"
    by (auto simp: findTagById_def find_Some_iff)
  with cs ct S T st q have m: "mergeTags castObjectId d p (Some q) = (Inr ?T', ?d')"
    by (simp add: mergeTags_def truthy_def Let_def)
  from T ids have "t \<in> set (map tag_id (Tags d))"
    by (auto simp: findTagById_def find_Some_iff)
  with dist ids have "distinct (map tag_id (saveTag ?T' (Tags d)))"
    by (simp add: saveTag_ids)
  then have 1: "findTagById (Tags ?d') s = None"
    by (simp add: findTagById_def find_deleteTagById)
  from T ids st have 2: "findTagById (Tags ?d') t = Some ?T'"
    by (simp add: findTagById_def find_deleteTagById_other find_saved)
  have 3: "\<exists>th'. Threads ?d' k = Some th' \<and>
                 (count_list (tags th) s \<le> 1 \<longrightarrow>
                    tags th' = map (\<lambda>x. if x = s then t else x) (tags th) \<and> s \<notin> set (tags th'))"
    if "Threads d k = Some th" for k th
    using that st by (auto simp: updateManyTags_def setFirstTag_single)
  from m 1 2 3 show ?thesis by blast
qed

text \<open>
  C9. The merge route sums the counters and deletes the source tag, but
  \<^verbatim>\<open>"tags.$"\<close> repoints only the first reference of each thread: a thread created with
  the names \<open>React\<close> and \<open>react\<close> references the tag \<open>react\<close> twice, and after merging
  \<open>react\<close> into \<open>reactjs\<close> its second reference still names the deleted tag. (For
  threads that reference the source at most once the merge does what the claim says:
  \<open>mergeTags_single_references\<close>.)
\<close>

theorem merge_leaves_duplicate_reference:
  "\<exists>th d1 tg d2.
     createThread hexObjectId (\<lambda>coll. idTagNew) idT9 7 tagDb \<lparr>uid = idU1, rrole = RoleUser\<rparr>
       ''Hooks in React'' ''How do hooks work?'' idCat (Some [''React'', ''react'']) = (Inr th, d1) \<and>
     tags th = [idTagNew, idTagNew] \<and>
     mergeTags hexObjectId d1 idTagNew (Some idTagJs) = (Inr tg, d2) \<and>
     tg = \<lparr>tag_id = idTagJs, tag_name = ''reactjs'', usageCount = 3\<rparr> \<and>
     Tags d2 = [\<lparr>tag_id = idTagJs, tag_name = ''reactjs'', usageCount = 3\<rparr>] \<and>
     map_option tags (Threads d2 idT9) = Some [idTagJs, idTagNew] \<and>
     findTagById (Tags d2) idTagNew = None"
proof -
  have n: "idTagJs \<noteq> []" by (simp add: id_defs)
  show ?thesis
    by (simp add: sample_keys [unfolded tagKey_def] sample_valid sample_casts tagDb_fields n
          createThread_def saveTag_def Let_def
          mergeTags_def truthy_def findTagById_def updateManyTags_def setFirstTag_def)
qed

section \<open>Inserting under a parent\<close>

lemma findAndAddReply_Cons:
  "findAndAddReply p n k (Reply f kids # rest) =
     (case r_id f of
        None \<Rightarrow> Inl TypeError
      | Some j \<Rightarrow>
          if j = p then Inr (Some k, Reply f (kids @ [n]) # rest)
          else
            (case findAndAddReply p n (Suc k) kids of
               Inl e \<Rightarrow> Inl e
             | Inr (Some j', kids') \<Rightarrow> Inr (Some j', Reply f kids' # rest)
             | Inr (None, kids') \<Rightarrow>
                 (case findAndAddReply p n k rest of
                    Inl e \<Rightarrow> Inl e
                  | Inr (found, rest') \<Rightarrow> Inr (found, Reply f kids' # rest'))))"
  by (cases kids) (simp_all split: option.splits)

declare findAndAddReply.simps(2) [simp del]

lemma findAndAddReply_absent:
  "reach p k rs = None \<Longrightarrow> findAndAddReply p n k rs = Inr (None, rs)"
proof (induction rs arbitrary: k rule: allReplies.induct)
  case 1
  show ?case by simp
next
  case (2 f kids rest)
  from "2.prems" obtain j where "r_id f = Some j" "j \<noteq> p"
    "reach p (Suc k) kids = None" "reach p k rest = None"
    by (auto simp: reach_Cons split: if_splits option.splits)
  with "2.IH" show ?case
    by (simp add: findAndAddReply_Cons)
qed

lemma findAndAddReply_throws:
  "reach p k rs = Some (j, r) \<Longrightarrow> r_id (r_fields r) = None \<Longrightarrow>
   findAndAddReply p n k rs = Inl TypeError"
proof (induction rs arbitrary: k rule: allReplies.induct)
  case 1
  then show ?case by (simp add: reach_Nil)
next
  case (2 f kids rest)
  show ?case
  proof (cases "r_id f")
    case None
    then show ?thesis by (simp add: findAndAddReply_Cons)
  next
    case (Some a)
    with "2.prems" have ne: "a \<noteq> p" by (auto simp: reach_Cons)
    show ?thesis
    proof (cases "reach p (Suc k) kids")
      case None
      with Some ne "2.prems" have "reach p k rest = Some (j, r)" by (simp add: reach_Cons)
      with "2.IH"(2) "2.prems"(2) Some ne None show ?thesis
        by (simp add: findAndAddReply_Cons findAndAddReply_absent)
    next
      case (Some x)
      with \<open>r_id f = Some a\<close> ne "2.prems" have "reach p (Suc k) kids = Some (j, r)"
        by (simp add: reach_Cons)
      with "2.IH"(1) "2.prems"(2) \<open>r_id f = Some a\<close> ne show ?thesis
        by (simp add: findAndAddReply_Cons)
    qed
  qed
qed

lemma reach_member:
  "reach i k rs = Some (j, r) \<Longrightarrow> r_id (r_fields r) \<in> set (replyIds rs)"
proof (induction rs arbitrary: k rule: allReplies.induct)
  case 1
  then show ?case by (simp add: reach_Nil)
next
  case (2 f kids rest)
  from "2.prems" "2.IH"(1) [of "Suc k"] "2.IH"(2) [of k] show ?case
    by (auto simp: reach_Cons replyIds_Cons split: if_splits option.splits)
qed

lemma truthy_Some: "p \<noteq> [] \<Longrightarrow> truthy (Some p) = Some p"
  by (simp add: truthy_def)

text \<open>
  A parent id that no node carries, on a tree with a node without \<^verbatim>\<open>_id\<close>: the walk
  throws at the first such node and the request is answered with 500.
\<close>

lemma addReply_unknown_parent_throws:
  assumes "castObjectId q = Some tid" "Threads d tid = Some th" "\<not> isLocked th" "p \<noteq> []"
    "Some p \<notin> set (replyIds (replies th))" "None \<in> set (replyIds (replies th))"
  shows "addReply castObjectId newId now d rq q c (Some p) = (Inl ServerError, d)"
proof -
  from assms(6) have "reach p 0 (replies th) \<noteq> None" by (simp add: reach_None)
  then obtain j r where r: "reach p 0 (replies th) = Some (j, r)" by auto
  from reach_stops [OF r] reach_member [OF r] assms(5) have "r_id (r_fields r) = None" by auto
  from findAndAddReply_throws [OF r this] assms(1-4) show ?thesis
    by (simp add: addReply_def truthy_Some Let_def)
qed

text \<open>
  C4, as amended. For a parent id that is a non-empty string and that no node of the
  tree carries, the insert handler fails and leaves the store, so the tree, exactly as
  it was; the failure is Forbidden on a locked thread (the lock is checked first) and
  NotFound on an open thread in which every node carries an \<^verbatim>\<open>_id\<close>. On such a tree
  \<open>findAndAddReply\<close> reports that it found nothing and returns the tree as it was.
\<close>

theorem insert_under_unknown_parent:
  "(Some p \<notin> set (replyIds rs) \<and> None \<notin> set (replyIds rs) \<longrightarrow>
      findAndAddReply p n k rs = Inr (None, rs)) \<and>
   (castObjectId q = Some tid \<and> Threads d tid = Some th \<and> p \<noteq> [] \<and>
    Some p \<notin> set (replyIds (replies th)) \<longrightarrow>
      (\<exists>e. addReply castObjectId newId now d rq q c (Some p) = (Inl e, d)) \<and>
      (isLocked th \<longrightarrow> addReply castObjectId newId now d rq q c (Some p) = (Inl Forbidden, d)) \<and>
      (\<not> isLocked th \<and> None \<notin> set (replyIds (replies th)) \<longrightarrow>
         addReply castObjectId newId now d rq q c (Some p) = (Inl NotFound, d)))"
proof (intro conjI impI)
  assume "Some p \<notin> set (replyIds rs) \<and> None \<notin> set (replyIds rs)"
  then show "findAndAddReply p n k rs = Inr (None, rs)"
    by (simp add: findAndAddReply_absent reach_None)
next
  assume a: "castObjectId q = Some tid \<and> Threads d tid = Some th \<and> p \<noteq> [] \<and>
    Some p \<notin> set (replyIds (replies th))"
  show "\<exists>e. addReply castObjectId newId now d rq q c (Some p) = (Inl e, d)"
  proof (cases "isLocked th")
    case True
    with a show ?thesis by (simp add: addReply_def)
  next
    case False
    show ?thesis
    proof (cases "None \<in> set (replyIds (replies th))")
      case True
      with a False addReply_unknown_parent_throws [of castObjectId q tid d th p newId now rq c]
      show ?thesis by simp
    next
      case n: False
      with a have "reach p 0 (replies th) = None" by (simp add: reach_None)
      with a False show ?thesis
        by (simp add: addReply_def truthy_Some Let_def findAndAddReply_absent)
    qed
  qed
next
  assume "castObjectId q = Some tid \<and> Threads d tid = Some th \<and> p \<noteq> [] \<and>
    Some p \<notin> set (replyIds (replies th))" and "isLocked th"
  then show "addReply castObjectId newId now d rq q c (Some p) = (Inl Forbidden, d)"
    by (simp add: addReply_def)
next
  assume a: "castObjectId q = Some tid \<and> Threads d tid = Some th \<and> p \<noteq> [] \<and>
    Some p \<notin> set (replyIds (replies th))"
    and b: "\<not> isLocked th \<and> None \<notin> set (replyIds (replies th))"
  then have "reach p 0 (replies th) = None" by (simp add: reach_None)
  with a b show "addReply castObjectId newId now d rq q c (Some p) = (Inl NotFound, d)"
    by (simp add: addReply_def truthy_Some Let_def findAndAddReply_absent)
qed

lemma sample_reply_ids:
  "replyIds [sampleA] = [Some idA, Some idB, Some idC]"
  "replyIds [firstReply, secondReply] = [Some idF, None, Some idS]"
  "idZ \<noteq> idA" "idZ \<noteq> idB" "idZ \<noteq> idC" "idZ \<noteq> idF" "idZ \<noteq> idS" "idZ \<noteq> []"
  "\<not> isLocked seededThread" "\<not> isLocked sampleThread"
  by (simp_all add: sample_defs id_defs replyIds_Cons replyIds_Nil)

theorem insert_under_unknown_parent_witness:
  "Some idZ \<notin> set (replyIds [sampleA]) \<and> None \<notin> set (replyIds [sampleA]) \<and>
   findAndAddReply idZ nestedReply 0 [sampleA] = Inr (None, [sampleA]) \<and>
   hexObjectId idT2 = Some idT2 \<and> Threads sampleDb idT2 = Some seededThread \<and> idZ \<noteq> [] \<and>
   Some idZ \<notin> set (replyIds (replies seededThread)) \<and> \<not> isLocked seededThread \<and>
   addReply hexObjectId idN 7 sampleDb \<lparr>uid = idU3, rrole = RoleUser\<rparr> idT2 ''hello'' (Some idZ) =
     (Inl NotFound, sampleDb) \<and>
   Threads lockedDb idT2 = Some (seededThread\<lparr>isLocked := True\<rparr>) \<and>
   addReply hexObjectId idN 7 lockedDb \<lparr>uid = idU3, rrole = RoleUser\<rparr> idT2 ''hello'' (Some idZ) =
     (Inl Forbidden, lockedDb) \<and>
   Threads sampleDb idT1 = Some sampleThread \<and>
   Some idZ \<notin> set (replyIds (replies sampleThread)) \<and>
   (\<exists>e. addReply hexObjectId idN 7 sampleDb \<lparr>uid = idU3, rrole = RoleUser\<rparr> idT1 ''hello'' (Some idZ) =
     (Inl e, sampleDb))"
proof -
  have h: "Some idZ \<notin> set (replyIds [sampleA])" "None \<notin> set (replyIds [sampleA])"
          "Some idZ \<notin> set (replyIds (replies seededThread))"
          "None \<notin> set (replyIds (replies seededThread))"
          "Some idZ \<notin> set (replyIds (replies sampleThread))"
          "Some idZ \<notin> set (replyIds (replies (seededThread\<lparr>isLocked := True\<rparr>)))"
          "Threads lockedDb idT2 = Some (seededThread\<lparr>isLocked := True\<rparr>)"
    by (simp_all add: sample_reply_ids seeded_tree sample_tree lockedDb_def)
  note a = insert_under_unknown_parent
             [of idZ "[sampleA]" nestedReply 0 hexObjectId idT2 idT2 sampleDb seededThread idN 7
                 "\<lparr>uid = idU3, rrole = RoleUser\<rparr>" "''hello''"]
  note b = insert_under_unknown_parent
             [of idZ "[sampleA]" nestedReply 0 hexObjectId idT2 idT2 lockedDb
                 "seededThread\<lparr>isLocked := True\<rparr>" idN 7
                 "\<lparr>uid = idU3, rrole = RoleUser\<rparr>" "''hello''"]
  note c = insert_under_unknown_parent
             [of idZ "[sampleA]" nestedReply 0 hexObjectId idT1 idT1 sampleDb sampleThread idN 7
                 "\<lparr>uid = idU3, rrole = RoleUser\<rparr>" "''hello''"]
  from a h sample_casts sample_votes sample_reply_ids
  have 1: "findAndAddReply idZ nestedReply 0 [sampleA] = Inr (None, [sampleA])"
    "addReply hexObjectId idN 7 sampleDb \<lparr>uid = idU3, rrole = RoleUser\<rparr> idT2 ''hello'' (Some idZ) =
      (Inl NotFound, sampleDb)"
    by simp_all
  from b h sample_casts sample_reply_ids
  have 2: "addReply hexObjectId idN 7 lockedDb \<lparr>uid = idU3, rrole = RoleUser\<rparr> idT2 ''hello'' (Some idZ) =
      (Inl Forbidden, lockedDb)"
    by simp
  from c [THEN conjunct2] h sample_casts sample_votes sample_reply_ids
  have 3: "\<exists>e. addReply hexObjectId idN 7 sampleDb \<lparr>uid = idU3, rrole = RoleUser\<rparr> idT1 ''hello'' (Some idZ) =
     (Inl e, sampleDb)"
    by simp
  from 1 2 3 h sample_casts sample_votes sample_reply_ids show ?thesis by simp
qed

text \<open>
  C4 as stated fails for the empty string: it is not null and identifies no node, but
  \<^verbatim>\<open>if (parentReplyId)\<close> takes it for an absent parent, so the reply is appended at the
  top level and the request succeeds.
\<close>

theorem insert_under_empty_parent_counterexample:
  "Some [] \<notin> set (replyIds (replies seededThread)) \<and>
   hexObjectId idT2 = Some idT2 \<and> Threads sampleDb idT2 = Some seededThread \<and>
   fst (addReply hexObjectId idN 7 sampleDb \<lparr>uid = idU3, rrole = RoleUser\<rparr> idT2 ''hello'' (Some [])) =
     Inr (Reply (sampleFields (Some idN) idU3 ''hello'' None [] 7) []) \<and>
   map_option replies
     (Threads (snd (addReply hexObjectId idN 7 sampleDb \<lparr>uid = idU3, rrole = RoleUser\<rparr> idT2 ''hello'' (Some [])))
        idT2) =
     Some [sampleA, Reply (sampleFields (Some idN) idU3 ''hello'' None [] 7) []]"
proof -
  have e: "Some [] \<notin> set (replyIds (replies seededThread))"
    by (simp add: seeded_tree sample_reply_ids id_defs)
  have v: "validReplyContent ''hello''" by (simp add: validReplyContent_def)
  have a: "addReply hexObjectId idN 7 sampleDb \<lparr>uid = idU3, rrole = RoleUser\<rparr> idT2 ''hello'' (Some []) =
     (Inr (Reply (sampleFields (Some idN) idU3 ''hello'' None [] 7) []),
      saveThread 7 sampleDb idT2 seededThread
        (seededThread\<lparr>replies := [sampleA, Reply (sampleFields (Some idN) idU3 ''hello'' None [] 7) []],
                      lastActivity := 7\<rparr>) True)"
    by (simp add: addReply_def sample_casts sample_votes sample_reply_ids seeded_tree truthy_def v
          Let_def sampleFields_def)
  show ?thesis
    by (simp add: e a sample_casts sample_votes saveThread_Threads preSave_fields)
qed

end
